theory Spec2Isabelle
  imports Complex_Main "HOL-Library.List_Lexorder" "HOL-Library.Multiset" "HOL-Library.Signed_Division"
begin

section \<open>Shared primitives\<close>

text \<open>
  Every panic and every error return of the Go code is a value of this type; a function
  that can panic or return an error returns \<open>error + 'a\<close> with \<open>Inl\<close> for the failure.
\<close>

datatype error =
    GobEncodeError
  | GobDecodeError
  | ErrNotExist
  | ErrExist
  | ErrLocked
  | IntnPanic
  | SliceBoundsPanic
  | IndexPanic
  | ActionCountPanic nat nat

text \<open>
  The global source of \<open>math/rand\<close>: an infinite stream of raw draws. \<open>rand.Intn(n)\<close>
  panics for \<open>n \<le> 0\<close> and otherwise returns a value in \<open>[0, n)\<close>, consuming one draw.
  Nothing is assumed about the stream, so a theorem that holds for every stream holds for
  every outcome of the generator; the distribution of the draws is outside this model.
\<close>

type_synonym rand = "nat \<Rightarrow> nat"

definition rand_draw :: "nat \<Rightarrow> rand \<Rightarrow> nat \<times> rand" where
  "rand_draw bound r = (r 0 mod bound, \<lambda>i. r (Suc i))"

definition rand_Intn :: "int \<Rightarrow> rand \<Rightarrow> error + (int \<times> rand)" where
  "rand_Intn n r =
     (if n \<le> 0 then Inl IntnPanic
      else (case rand_draw (nat n) r of (m, r') \<Rightarrow> Inr (int m, r')))"

text \<open>Go's \<open>int\<close> is 64 bits wide and wraps around; \<open>uint64(x)\<close> reinterprets it.\<close>

definition int64 :: "int \<Rightarrow> int" where
  "int64 x = (x + 2 ^ 63) mod 2 ^ 64 - 2 ^ 63"

definition uint64 :: "int \<Rightarrow> nat" where
  "uint64 x = nat (x mod 2 ^ 64)"

section \<open>The LevelDB-backed reservoir buffer (package ldbstore)\<close>

subsection \<open>Library contracts the buffer relies on\<close>

text \<open>
  \<open>binary.PutUvarint\<close>: seven bits per byte, least significant group first, the high
  bit set on every byte but the last. A byte is a natural number below 256.
\<close>

type_synonym bytes = "nat list"

function PutUvarint :: "nat \<Rightarrow> bytes" where
  "PutUvarint x = (if 128 \<le> x then (x mod 128 + 128) # PutUvarint (x div 128) else [x])"
  by pat_completeness auto
termination
  by (relation "measure id") auto

declare PutUvarint.simps [simp del]

text \<open>
  The store: LevelDB keeps its entries in ascending bytewise key order (shorter prefix
  first), \<open>Put\<close> is an upsert, and an iterator walks the entries in that order. The model
  is the list of entries in key order. Its I/O never fails here.
\<close>

type_synonym DB = "(bytes \<times> bytes) list"

fun db_Put :: "bytes \<Rightarrow> bytes \<Rightarrow> DB \<Rightarrow> DB" where
  "db_Put k v [] = [(k, v)]"
| "db_Put k v ((k', v') # rest) =
     (if k < k' then (k, v) # (k', v') # rest
      else if k = k' then (k, v) # rest
      else (k', v') # db_Put k v rest)"

text \<open>
  \<open>encoding/gob\<close> on a \<open>deepcfr.Sample\<close>: the sample type and its codec belong to the
  caller, so both directions are parameters and either may fail.
\<close>

record 's gob =
  gob_Encode :: "'s \<Rightarrow> error + bytes"
  gob_Decode :: "bytes \<Rightarrow> error + 's"

text \<open>
  \<open>opt.Options\<close>: the two flags that decide whether \<open>leveldb.OpenFile\<close> succeeds; the
  remaining fields are carried along unread, by field name, a field at its zero value
  being absent from the map.
\<close>

record Options =
  ErrorIfMissing :: bool
  ErrorIfExist :: bool
  otherOptions :: "string \<rightharpoonup> string"

text \<open>
  A store on disk: its entries, and whether an open handle holds its file lock.
\<close>

record store =
  locked :: bool
  entries :: DB

text \<open>
  \<open>leveldb.OpenFile(path, opts)\<close> against the stores present on disk: a nil \<open>opts\<close> means
  the defaults (both flags off); a missing store is created empty unless \<open>ErrorIfMissing\<close>.
  The file lock of an existing store is taken before \<open>ErrorIfExist\<close> is looked at, so a
  store that is held fails to open whatever the options.
\<close>

type_synonym disk = "string \<rightharpoonup> store"

definition OpenFile :: "disk \<Rightarrow> string \<Rightarrow> Options option \<Rightarrow> error + DB" where
  "OpenFile d p os =
     (case d p of
        None \<Rightarrow> (if (case os of None \<Rightarrow> False | Some opt \<Rightarrow> ErrorIfMissing opt)
                 then Inl ErrNotExist else Inr [])
      | Some st \<Rightarrow> (if locked st then Inl ErrLocked
                   else if (case os of None \<Rightarrow> False | Some opt \<Rightarrow> ErrorIfExist opt)
                   then Inl ErrExist else Inr (entries st)))"

subsection \<open>ReservoirBuffer\<close>

text \<open>
  The fields of the Go struct, with the opened store as its entries. The mutex \<open>mx\<close> is
  represented by the log \<open>accesses\<close>: what happens on the mutex and on the fields it
  guards, in program order. \<open>rOpts\<close> and \<open>wOpts\<close> are never assigned and stay nil.
\<close>

datatype access = MxLock | MxUnlock | WriteN int | ReadRand int | DbPut bytes

record ReservoirBuffer =
  path :: string
  opts :: "Options option"
  maxSize :: int
  n :: int
  db :: DB
  accesses :: "access list"

definition NewReservoirBuffer ::
  "disk \<Rightarrow> string \<Rightarrow> Options option \<Rightarrow> int \<Rightarrow> error + ReservoirBuffer" where
  "NewReservoirBuffer d p os cap =
     (case OpenFile d p os of
        Inl err \<Rightarrow> Inl err
      | Inr store \<Rightarrow>
          Inr \<lparr>path = p, opts = os, maxSize = cap, n = 0, db = store, accesses = []\<rparr>)"

definition putSample ::
  "'s gob \<Rightarrow> int \<Rightarrow> 's \<Rightarrow> ReservoirBuffer \<Rightarrow> error + ReservoirBuffer" where
  "putSample G idx s b =
     (let key = PutUvarint (uint64 idx) in
      case gob_Encode G s of
        Inl err \<Rightarrow> Inl err
      | Inr val \<Rightarrow> Inr (b\<lparr>db := db_Put key val (db b), accesses := accesses b @ [DbPut key]\<rparr>))"

definition mx_Lock :: "ReservoirBuffer \<Rightarrow> ReservoirBuffer" where
  "mx_Lock b = b\<lparr>accesses := accesses b @ [MxLock]\<rparr>"

definition mx_Unlock :: "ReservoirBuffer \<Rightarrow> ReservoirBuffer" where
  "mx_Unlock b = b\<lparr>accesses := accesses b @ [MxUnlock]\<rparr>"

text \<open>
  \<open>AddSample\<close>. The deferred \<open>Unlock\<close> runs on every return; a panic of \<open>putSample\<close> or
  of \<open>rand.Intn\<close> ends the call with \<open>Inl\<close>.
\<close>

definition AddSample ::
  "'s gob \<Rightarrow> 's \<Rightarrow> rand \<times> ReservoirBuffer \<Rightarrow> error + (rand \<times> ReservoirBuffer)" where
  "AddSample G s = (\<lambda>(r, b0).
     let b1 = mx_Lock b0;
         b2 = b1\<lparr>n := int64 (n b1 + 1), accesses := accesses b1 @ [WriteN (int64 (n b1 + 1))]\<rparr>
     in
       if n b2 \<le> maxSize b2 then
         (case putSample G (n b2 - 1) s b2 of
            Inl err \<Rightarrow> Inl err
          | Inr b3 \<Rightarrow> Inr (r, mx_Unlock b3))
       else
         (case rand_Intn (n b2) r of
            Inl err \<Rightarrow> Inl err
          | Inr (m, r') \<Rightarrow>
              let b3 = b2\<lparr>accesses := accesses b2 @ [ReadRand m]\<rparr> in
              if m < maxSize b3 then
                (case putSample G m s b3 of
                   Inl err \<Rightarrow> Inl err
                 | Inr b4 \<Rightarrow> Inr (r', mx_Unlock b4))
              else Inr (r', mx_Unlock b3)))"

text \<open>\<open>GetSamples\<close>: the iterator's entries in order, each value decoded; a decode error panics.\<close>

fun decodeAll :: "'s gob \<Rightarrow> DB \<Rightarrow> error + 's list" where
  "decodeAll G [] = Inr []"
| "decodeAll G ((k, v) # rest) =
     (case gob_Decode G v of
        Inl err \<Rightarrow> Inl err
      | Inr sample \<Rightarrow>
          (case decodeAll G rest of
             Inl err \<Rightarrow> Inl err
           | Inr samples \<Rightarrow> Inr (sample # samples)))"

definition GetSamples :: "'s gob \<Rightarrow> ReservoirBuffer \<Rightarrow> error + 's list" where
  "GetSamples G b = decodeAll G (db b)"

text \<open>A run of \<open>AddSample\<close> calls, one per sample, stopping at the first panic.\<close>

fun addSamples ::
  "'s gob \<Rightarrow> 's list \<Rightarrow> rand \<times> ReservoirBuffer \<Rightarrow> error + (rand \<times> ReservoirBuffer)" where
  "addSamples G [] rb = Inr rb"
| "addSamples G (s # ss) rb =
     (case AddSample G s rb of
        Inl err \<Rightarrow> Inl err
      | Inr rb' \<Rightarrow> addSamples G ss rb')"

subsection \<open>Persisted metadata\<close>

text \<open>
  A gob stream is the sequence of typed values written to it. \<open>Decode\<close> into a variable
  of another type, or at the end of the stream, is a decode error; an integer outside the
  range of Go's \<open>int\<close> is one too. Encoding a nil \<open>*opt.Options\<close> fails.

  Some fields of \<open>opt.Options\<close> (\<open>Filter\<close>, \<open>Comparer\<close>) hold interface values, which gob
  transmits only for concrete types registered with it. The registry belongs to the
  program that links the package, so it is a parameter: \<open>R os\<close> says that every interface
  value in \<open>os\<close> has a registered type. \<open>Encode\<close> fails on options that are not covered,
  and so does \<open>Decode\<close> on a stream that carries them.
\<close>

type_synonym registry = "Options \<Rightarrow> bool"

datatype gobval = GobString string | GobOptions Options | GobInt int

definition enc_Encode :: "gobval \<Rightarrow> gobval list \<Rightarrow> error + gobval list" where
  "enc_Encode v buf = Inr (buf @ [v])"

definition enc_Options ::
  "registry \<Rightarrow> Options option \<Rightarrow> gobval list \<Rightarrow> error + gobval list" where
  "enc_Options R os buf =
     (case os of
        None \<Rightarrow> Inl GobEncodeError
      | Some x \<Rightarrow> (if R x then enc_Encode (GobOptions x) buf else Inl GobEncodeError))"

definition dec_String :: "gobval list \<Rightarrow> error + (string \<times> gobval list)" where
  "dec_String buf = (case buf of GobString x # rest \<Rightarrow> Inr (x, rest) | _ \<Rightarrow> Inl GobDecodeError)"

text \<open>
  \<open>Decode(&b.opts)\<close> decodes through the pointer the receiver holds: a nil pointer is
  first set to a fresh zero-valued \<open>Options\<close>, and a field is assigned only if the stream
  carries it. The stream carries the fields that were not at their zero value when
  encoded, so every other field keeps what the receiver had.
\<close>

definition zeroOptions :: Options where
  "zeroOptions = \<lparr>ErrorIfMissing = False, ErrorIfExist = False, otherOptions = Map.empty\<rparr>"

definition decodeInto :: "Options \<Rightarrow> Options option \<Rightarrow> Options" where
  "decodeInto x cur =
     (let t = (case cur of None \<Rightarrow> zeroOptions | Some c \<Rightarrow> c)
      in \<lparr>ErrorIfMissing = (if ErrorIfMissing x then True else ErrorIfMissing t),
          ErrorIfExist = (if ErrorIfExist x then True else ErrorIfExist t),
          otherOptions = otherOptions t ++ otherOptions x\<rparr>)"

definition dec_Options ::
  "registry \<Rightarrow> Options option \<Rightarrow> gobval list \<Rightarrow> error + (Options \<times> gobval list)" where
  "dec_Options R cur buf =
     (case buf of
        GobOptions x # rest \<Rightarrow>
          (if R x then Inr (decodeInto x cur, rest) else Inl GobDecodeError)
      | _ \<Rightarrow> Inl GobDecodeError)"

definition dec_Int :: "gobval list \<Rightarrow> error + (int \<times> gobval list)" where
  "dec_Int buf =
     (case buf of
        GobInt x # rest \<Rightarrow>
          (if - (2 ^ 63) \<le> x \<and> x < 2 ^ 63 then Inr (x, rest) else Inl GobDecodeError)
      | _ \<Rightarrow> Inl GobDecodeError)"

definition GobEncode :: "registry \<Rightarrow> ReservoirBuffer \<Rightarrow> error + gobval list" where
  "GobEncode R b =
     (case enc_Encode (GobString (path b)) [] of
        Inl err \<Rightarrow> Inl err
      | Inr buf1 \<Rightarrow>
     (case enc_Options R (opts b) buf1 of
        Inl err \<Rightarrow> Inl err
      | Inr buf2 \<Rightarrow>
     (case enc_Encode (GobInt (maxSize b)) buf2 of
        Inl err \<Rightarrow> Inl err
      | Inr buf3 \<Rightarrow>
     (case enc_Encode (GobInt (n b)) buf3 of
        Inl err \<Rightarrow> Inl err
      | Inr buf4 \<Rightarrow> Inr buf4))))"

text \<open>
  \<open>GobDecode\<close> assigns the receiver's fields as it goes and returns at the first error;
  the receiver of a failed call is not used again, so the model returns the error alone.
  The options are decoded through the receiver's \<open>opts\<close>, then \<open>ErrorIfMissing\<close> is set
  on the result (line 366, never a nil dereference after a successful decode).
\<close>

definition GobDecode ::
  "registry \<Rightarrow> disk \<Rightarrow> gobval list \<Rightarrow> ReservoirBuffer \<Rightarrow> error + ReservoirBuffer" where
  "GobDecode R d buf b =
     (case dec_String buf of
        Inl err \<Rightarrow> Inl err
      | Inr (p, buf1) \<Rightarrow>
     (case dec_Options R (opts b) buf1 of
        Inl err \<Rightarrow> Inl err
      | Inr (os, buf2) \<Rightarrow>
     (case dec_Int buf2 of
        Inl err \<Rightarrow> Inl err
      | Inr (cap, buf3) \<Rightarrow>
     (case dec_Int buf3 of
        Inl err \<Rightarrow> Inl err
      | Inr (cnt, buf4) \<Rightarrow>
          (let b1 = b\<lparr>path := p, opts := Some os, maxSize := cap, n := cnt\<rparr>;
               b2 = b1\<lparr>opts := Some (os\<lparr>ErrorIfMissing := True\<rparr>)\<rparr>
           in case OpenFile d (path b2) (opts b2) of
                Inl err \<Rightarrow> Inl err
              | Inr db' \<Rightarrow> Inr (b2\<lparr>db := db'\<rparr>))))))"

section \<open>Counterfactual regret minimisation (package cfr)\<close>

subsection \<open>Single-precision arithmetic\<close>

text \<open>
  \<open>float32\<close> arithmetic is a parameter: the operations the engines apply, on a type of
  values that is left open. A theorem that holds for every such structure holds for
  IEEE-754 arithmetic with its rounding, infinities and NaN. \<open>f32_of_f64\<close> is the
  conversion \<open>float32(x)\<close> of a \<open>float64\<close> utility, \<open>f32_of_int\<close> that of an \<open>int\<close>.
\<close>

record ('f, 'u) f32ops =
  f32_zero :: 'f
  f32_one :: 'f
  f32_add :: "'f \<Rightarrow> 'f \<Rightarrow> 'f"
  f32_mul :: "'f \<Rightarrow> 'f \<Rightarrow> 'f"
  f32_div :: "'f \<Rightarrow> 'f \<Rightarrow> 'f"
  f32_neg :: "'f \<Rightarrow> 'f"
  f32_of_int :: "int \<Rightarrow> 'f"
  f32_of_f64 :: "'u \<Rightarrow> 'f"

text \<open>
  Modelled from the spec: \<open>f32.AddConst\<close> (package internal/f32) is not among the sources.
  It adds the constant to every element of the slice it is given.
\<close>

definition AddConst :: "('f, 'u) f32ops \<Rightarrow> 'f \<Rightarrow> 'f list \<Rightarrow> 'f list" where
  "AddConst A c xs = map (\<lambda>x. f32_add A x c) xs"

text \<open>
  Modelled from the spec: \<open>getSign\<close> is not among the sources. The value is negated when
  the last acting player differs from the acting player.
\<close>

definition getSign :: "('f, 'u) f32ops \<Rightarrow> int \<Rightarrow> int \<Rightarrow> 'f" where
  "getSign A player1 player2 = (if player1 = player2 then f32_one A else f32_neg A (f32_one A))"

subsection \<open>Game tree nodes\<close>

datatype NodeType = ChanceNode | TerminalNode | PlayerNode

text \<open>
  \<open>GameTreeNode\<close> is an interface; a node is the answers its methods give. \<open>Ident\<close> is
  the identity of the node object, which the log of calls on nodes records. Every method
  answers on every node, as in Go, whatever the node's type.
\<close>

datatype 'u GameTreeNode = GameTreeNode
  (Type: NodeType)
  (Ident: nat)
  (Player: int)
  (InfoSetKey: "int \<Rightarrow> string")
  (Utility: "int \<Rightarrow> 'u")
  (Children: "'u GameTreeNode list")

definition NumChildren :: "'u GameTreeNode \<Rightarrow> nat" where
  "NumChildren node = length (Children node)"

text \<open>The calls on nodes that the engines' log records: \<open>Type()\<close> on entry, \<open>Close()\<close>.\<close>

datatype nodeCall = CallType nat | CallClose nat

text \<open>
  \<open>SampleChild\<close> of a chance node belongs to the game: it returns one of the children,
  chosen with the random source, and panics when there is none. The probability it also
  returns is dropped by both engines.
\<close>

definition SampleChild :: "'u GameTreeNode \<Rightarrow> rand \<Rightarrow> error + ('u GameTreeNode \<times> rand)" where
  "SampleChild node r =
     (case rand_Intn (int (NumChildren node)) r of
        Inl err \<Rightarrow> Inl err
      | Inr (i, r') \<Rightarrow> Inr (Children node ! nat i, r'))"

subsection \<open>Policy\<close>

text \<open>
  Modelled from the spec: package internal/policy is not among the sources. A Policy
  holds the cumulative regrets, the cumulative strategy weights and the current strategy
  of one information set; a new one starts from zero sums and the uniform strategy.
  \<open>AddRegret\<close> adds \<open>scale * values[a]\<close> to the regret of each action \<open>a\<close>,
  \<open>AddStrategyWeight\<close> adds \<open>weight * strategy[a]\<close> to its strategy sum.
\<close>

record 'f Policy =
  regretSum :: "'f list"
  strategySum :: "'f list"
  currentStrategy :: "'f list"

definition policy_New :: "('f, 'u) f32ops \<Rightarrow> nat \<Rightarrow> 'f Policy" where
  "policy_New A nActions =
     \<lparr>regretSum = replicate nActions (f32_zero A),
      strategySum = replicate nActions (f32_zero A),
      currentStrategy =
        replicate nActions (f32_div A (f32_one A) (f32_of_int A (int nActions)))\<rparr>"

definition NumActions :: "'f Policy \<Rightarrow> nat" where
  "NumActions p = length (regretSum p)"

definition GetStrategy :: "'f Policy \<Rightarrow> 'f list" where
  "GetStrategy p = currentStrategy p"

definition AddRegret :: "('f, 'u) f32ops \<Rightarrow> 'f \<Rightarrow> 'f list \<Rightarrow> 'f Policy \<Rightarrow> 'f Policy" where
  "AddRegret A scale vals p =
     p\<lparr>regretSum :=
         map (\<lambda>a. f32_add A (regretSum p ! a) (f32_mul A scale (vals ! a)))
           [0..<length (regretSum p)]\<rparr>"

definition AddStrategyWeight :: "('f, 'u) f32ops \<Rightarrow> 'f \<Rightarrow> 'f Policy \<Rightarrow> 'f Policy" where
  "AddStrategyWeight A w p =
     p\<lparr>strategySum :=
         map (\<lambda>a. f32_add A (strategySum p ! a) (f32_mul A w (currentStrategy p ! a)))
           [0..<length (strategySum p)]\<rparr>"

subsection \<open>PolicyTable\<close>

text \<open>
  The table owns one Policy per key and never replaces it, so a \<open>*policy.Policy\<close> is
  identified by the key it is stored under: \<open>mayNeedUpdate\<close> is a set of keys, and a
  method called through the pointer updates the entry of that key.
\<close>

record ('f, 'dp) PolicyTable =
  params :: 'dp
  iter :: int
  policiesByKey :: "string \<rightharpoonup> 'f Policy"
  mayNeedUpdate :: "string set"

definition NewPolicyTable :: "'dp \<Rightarrow> ('f, 'dp) PolicyTable" where
  "NewPolicyTable ps =
     \<lparr>params = ps, iter = 1, policiesByKey = Map.empty, mayNeedUpdate = {}\<rparr>"

text \<open>
  The discount schedule \<open>DiscountParams.GetDiscountFactors\<close> and \<open>Policy.NextStrategy\<close>
  are not among the sources and the spec leaves their formulas open: both are parameters.
\<close>

record ('f, 'dp) discounting =
  GetDiscountFactors :: "'dp \<Rightarrow> int \<Rightarrow> 'f \<times> 'f \<times> 'f"
  NextStrategy :: "'f \<Rightarrow> 'f \<Rightarrow> 'f \<Rightarrow> 'f Policy \<Rightarrow> 'f Policy"

definition Update :: "('f, 'dp) discounting \<Rightarrow> ('f, 'dp) PolicyTable \<Rightarrow> ('f, 'dp) PolicyTable" where
  "Update D pt =
     (case GetDiscountFactors D (params pt) (iter pt) of
        (discountPos, discountNeg, discountSum) \<Rightarrow>
          pt\<lparr>policiesByKey :=
                (\<lambda>key. if key \<in> mayNeedUpdate pt
                        then map_option (NextStrategy D discountPos discountNeg discountSum)
                               (policiesByKey pt key)
                        else policiesByKey pt key),
              mayNeedUpdate := {},
              iter := int64 (iter pt + 1)\<rparr>)"

definition Iter :: "('f, 'dp) PolicyTable \<Rightarrow> int" where
  "Iter pt = iter pt"

text \<open>\<open>GetPolicy\<close> returns the pointer (the key) together with the Policy it points to.\<close>

definition GetPolicy ::
  "('f, 'u) f32ops \<Rightarrow> 'u GameTreeNode \<Rightarrow> ('f, 'dp) PolicyTable \<Rightarrow>
     error + ((string \<times> 'f Policy) \<times> ('f, 'dp) PolicyTable)" where
  "GetPolicy A node pt =
     (let p = Player node;
          key = InfoSetKey node p;
          (np, pt1) =
            (case policiesByKey pt key of
               None \<Rightarrow>
                 (let fresh = policy_New A (NumChildren node)
                  in (fresh, pt\<lparr>policiesByKey := (policiesByKey pt)(key \<mapsto> fresh)\<rparr>))
             | Some found \<Rightarrow> (found, pt))
      in if NumActions np \<noteq> NumChildren node
         then Inl (ActionCountPanic (NumActions np) (NumChildren node))
         else Inr ((key, np), pt1\<lparr>mayNeedUpdate := insert key (mayNeedUpdate pt1)\<rparr>))"

text \<open>A method called through a \<open>*policy.Policy\<close>: the entry of its key is replaced.\<close>

definition onPolicy ::
  "string \<Rightarrow> ('f Policy \<Rightarrow> 'f Policy) \<Rightarrow> ('f, 'dp) PolicyTable \<Rightarrow> ('f, 'dp) PolicyTable" where
  "onPolicy key f pt =
     (case policiesByKey pt key of
        None \<Rightarrow> pt
      | Some p \<Rightarrow> pt\<lparr>policiesByKey := (policiesByKey pt)(key \<mapsto> f p)\<rparr>)"

subsection \<open>What a traversal reads and writes\<close>

text \<open>
  The state a traversal threads through its calls: the random source, the strategy
  profile, the free list of the scratch pool, and the log of calls on nodes.
\<close>

record ('f, 'p) world =
  rng :: rand
  profile :: 'p
  slicePool :: "'f list list"
  calls :: "nodeCall list"

text \<open>
  Modelled from the spec: the scratch pools (\<open>floatSlicePool\<close>,
  \<open>threadSafeFloatSlicePool\<close>) are not among the sources. \<open>alloc\<close> hands out a buffer of
  the requested length, reused from the free list when there is one (its old content is
  kept, the pool does not zero it) and freshly allocated otherwise; \<open>free\<close> puts a buffer
  back on the free list.
\<close>

definition pool_alloc :: "('f, 'u) f32ops \<Rightarrow> nat \<Rightarrow> 'f list list \<Rightarrow> 'f list \<times> 'f list list" where
  "pool_alloc A len pool =
     (case pool of
        [] \<Rightarrow> (replicate len (f32_zero A), [])
      | buf # rest \<Rightarrow> (take len buf @ replicate (len - length buf) (f32_zero A), rest))"

definition pool_free :: "'f list \<Rightarrow> 'f list list \<Rightarrow> 'f list list" where
  "pool_free buf pool = buf # pool"

subsection \<open>Robust sampling\<close>

definition arange :: "nat \<Rightarrow> nat list" where
  "arange len = [0..<len]"

text \<open>
  \<open>rand.Shuffle(n, swap)\<close>: for \<open>i\<close> from \<open>n - 1\<close> down to 1, swap positions \<open>i\<close> and a
  random \<open>j\<close> in \<open>[0, i]\<close>. The swap is the closure of lines 75-77.
\<close>

definition swap :: "nat \<Rightarrow> nat \<Rightarrow> 'a list \<Rightarrow> 'a list" where
  "swap i j xs = xs[i := xs ! j, j := xs ! i]"

fun shuffle_from :: "nat \<Rightarrow> 'a list \<Rightarrow> rand \<Rightarrow> 'a list \<times> rand" where
  "shuffle_from 0 xs r = (xs, r)"
| "shuffle_from (Suc i) xs r =
     (case rand_draw (Suc (Suc i)) r of (j, r') \<Rightarrow> shuffle_from i (swap (Suc i) j xs) r')"

definition rand_Shuffle :: "'a list \<Rightarrow> rand \<Rightarrow> 'a list \<times> rand" where
  "rand_Shuffle xs r = shuffle_from (length xs - 1) xs r"

text \<open>Lines 72-80 of \<open>handleTraversingPlayerNode\<close>; \<open>selected[:k]\<close> panics for a negative \<open>k\<close>.\<close>

definition sampleActions :: "int \<Rightarrow> nat \<Rightarrow> rand \<Rightarrow> error + (nat list \<times> rand)" where
  "sampleActions k nChildren r =
     (let selected = arange nChildren in
      if k < int (length selected) then
        (case rand_Shuffle selected r of
           (shuffled, r') \<Rightarrow>
             if k < 0 then Inl SliceBoundsPanic else Inr (take (nat k) shuffled, r'))
      else Inr (selected, r))"

text \<open>
  Modelled from the spec: \<open>sampleOne\<close> is not among the sources. It samples one action
  index of the strategy vector with the random source; which index the weights favour is
  outside this model, every index of the vector is a possible outcome.
\<close>

definition sampleOne :: "'f list \<Rightarrow> rand \<Rightarrow> error + (nat \<times> rand)" where
  "sampleOne pv r =
     (case rand_Intn (int (length pv)) r of
        Inl err \<Rightarrow> Inl err
      | Inr (i, r') \<Rightarrow> Inr (nat i, r'))"

text \<open>
  The recursive evaluator. It calls \<open>GetPolicy\<close> and \<open>Iter\<close> on its strategy profile,
  which is the \<open>PolicyTable\<close> above. \<open>sampledActions\<close> is the Go map the calls share: each
  call returns the map as it leaves it. \<open>sampledLoop\<close> is the loop of lines 86-92; an index
  outside a slice panics.
\<close>

type_synonym sampledActions = "string \<rightharpoonup> nat"

function
  runHelper ::
    "('f, 'u) f32ops \<Rightarrow> int \<Rightarrow> 'u GameTreeNode \<Rightarrow> int \<Rightarrow> 'f \<Rightarrow> int \<Rightarrow> sampledActions \<Rightarrow>
       ('f, ('f, 'dp) PolicyTable) world \<Rightarrow>
       error + ('f \<times> sampledActions \<times> ('f, ('f, 'dp) PolicyTable) world)"
and handleChanceNode ::
    "('f, 'u) f32ops \<Rightarrow> int \<Rightarrow> 'u GameTreeNode \<Rightarrow> int \<Rightarrow> 'f \<Rightarrow> int \<Rightarrow> sampledActions \<Rightarrow>
       ('f, ('f, 'dp) PolicyTable) world \<Rightarrow>
       error + ('f \<times> sampledActions \<times> ('f, ('f, 'dp) PolicyTable) world)"
and handlePlayerNode ::
    "('f, 'u) f32ops \<Rightarrow> int \<Rightarrow> 'u GameTreeNode \<Rightarrow> 'f \<Rightarrow> int \<Rightarrow> sampledActions \<Rightarrow>
       ('f, ('f, 'dp) PolicyTable) world \<Rightarrow>
       error + ('f \<times> sampledActions \<times> ('f, ('f, 'dp) PolicyTable) world)"
and handleTraversingPlayerNode ::
    "('f, 'u) f32ops \<Rightarrow> int \<Rightarrow> 'u GameTreeNode \<Rightarrow> 'f \<Rightarrow> int \<Rightarrow> sampledActions \<Rightarrow>
       ('f, ('f, 'dp) PolicyTable) world \<Rightarrow>
       error + ('f \<times> sampledActions \<times> ('f, ('f, 'dp) PolicyTable) world)"
and sampledLoop ::
    "('f, 'u) f32ops \<Rightarrow> int \<Rightarrow> 'u GameTreeNode \<Rightarrow> 'f list \<Rightarrow> int \<Rightarrow> 'f \<Rightarrow> int \<Rightarrow> nat list \<Rightarrow>
       'f list \<Rightarrow> 'f \<Rightarrow> sampledActions \<Rightarrow> ('f, ('f, 'dp) PolicyTable) world \<Rightarrow>
       error + (('f list \<times> 'f) \<times> sampledActions \<times> ('f, ('f, 'dp) PolicyTable) world)"
and handleSampledPlayerNode ::
    "('f, 'u) f32ops \<Rightarrow> int \<Rightarrow> 'u GameTreeNode \<Rightarrow> 'f \<Rightarrow> int \<Rightarrow> sampledActions \<Rightarrow>
       ('f, ('f, 'dp) PolicyTable) world \<Rightarrow>
       error + ('f \<times> sampledActions \<times> ('f, ('f, 'dp) PolicyTable) world)"
where
  "runHelper A k node lastPlayer sampleProb traversingPlayer sampledActions w =
     (let w0 = w\<lparr>calls := calls w @ [CallType (Ident node)]\<rparr> in
      case (case Type node of
              TerminalNode \<Rightarrow>
                Inr (f32_div A (f32_of_f64 A (Utility node lastPlayer)) sampleProb,
                     sampledActions, w0)
            | ChanceNode \<Rightarrow>
                handleChanceNode A k node lastPlayer sampleProb traversingPlayer sampledActions w0
            | PlayerNode \<Rightarrow>
                (let sgn = getSign A lastPlayer (Player node) in
                 case handlePlayerNode A k node sampleProb traversingPlayer sampledActions w0 of
                   Inl err \<Rightarrow> Inl err
                 | Inr (v, sa, w1) \<Rightarrow> Inr (f32_mul A sgn v, sa, w1)))
      of
        Inl err \<Rightarrow> Inl err
      | Inr (ev, sa, w1) \<Rightarrow> Inr (ev, sa, w1\<lparr>calls := calls w1 @ [CallClose (Ident node)]\<rparr>))"
| "handleChanceNode A k node lastPlayer sampleProb traversingPlayer sampledActions w =
     (case SampleChild node (rng w) of
        Inl err \<Rightarrow> Inl err
      | Inr (child, r') \<Rightarrow>
          runHelper A k child lastPlayer sampleProb traversingPlayer sampledActions
            (w\<lparr>rng := r'\<rparr>))"
| "handlePlayerNode A k node sampleProb traversingPlayer sampledActions w =
     (if traversingPlayer = Player node
      then handleTraversingPlayerNode A k node sampleProb traversingPlayer sampledActions w
      else handleSampledPlayerNode A k node sampleProb traversingPlayer sampledActions w)"
| "handleTraversingPlayerNode A k node sampleProb traversingPlayer sampledActions w =
     (let player = Player node;
          nChildren = NumChildren node
      in case GetPolicy A node (profile w) of
           Inl err \<Rightarrow> Inl err
         | Inr ((policy, pol), pt1) \<Rightarrow>
             (let w1 = w\<lparr>profile := pt1\<rparr>;
                  strategy = GetStrategy pol
              in case sampleActions k nChildren (rng w1) of
                   Inl err \<Rightarrow> Inl err
                 | Inr (selected, r') \<Rightarrow>
                     (let w2 = w1\<lparr>rng := r'\<rparr>;
                          q = f32_div A (f32_one A) (f32_of_int A (int nChildren));
                          (regrets, pool') = pool_alloc A nChildren (slicePool w2);
                          w3 = w2\<lparr>slicePool := pool'\<rparr>
                      in case sampledLoop A k node strategy player (f32_mul A q sampleProb)
                                traversingPlayer selected regrets (f32_zero A) sampledActions w3 of
                           Inl err \<Rightarrow> Inl err
                         | Inr ((regrets1, cfValue), sa, w4) \<Rightarrow>
                             (let regrets2 = AddConst A (f32_neg A cfValue) regrets1;
                                  w5 = w4\<lparr>profile :=
                                         onPolicy policy
                                           (AddRegret A (f32_div A (f32_one A) q) regrets2)
                                           (profile w4)\<rparr>;
                                  w6 = w5\<lparr>slicePool := pool_free regrets2 (slicePool w5)\<rparr>
                              in Inr (cfValue, sa, w6)))))"
| "sampledLoop A k node strategy player sampleProb traversingPlayer [] regrets cfValue
     sampledActions w = Inr ((regrets, cfValue), sampledActions, w)"
| "sampledLoop A k node strategy player sampleProb traversingPlayer (i # rest) regrets cfValue
     sampledActions w =
     (if i < length (Children node) \<and> i < length strategy \<and> i < length regrets then
        (let child = Children node ! i;
             p = strategy ! i
         in case runHelper A k child player sampleProb traversingPlayer sampledActions w of
              Inl err \<Rightarrow> Inl err
            | Inr (util, sa, w1) \<Rightarrow>
                sampledLoop A k node strategy player sampleProb traversingPlayer rest
                  (regrets[i := util]) (f32_add A cfValue (f32_mul A p util)) sa w1)
      else Inl IndexPanic)"
| "handleSampledPlayerNode A k node sampleProb traversingPlayer sampledActions w =
     (let player = Player node;
          key = InfoSetKey node player
      in case GetPolicy A node (profile w) of
           Inl err \<Rightarrow> Inl err
         | Inr ((policy, pol), pt1) \<Rightarrow>
             (let w1 = w\<lparr>profile := pt1\<rparr>
              in case (case sampledActions key of
                         Some i \<Rightarrow> Inr (i, sampledActions, w1)
                       | None \<Rightarrow>
                           (case sampleOne (GetStrategy pol) (rng w1) of
                              Inl err \<Rightarrow> Inl err
                            | Inr (i, r') \<Rightarrow>
                                Inr (i, sampledActions(key \<mapsto> i), w1\<lparr>rng := r'\<rparr>)))
                 of
                   Inl err \<Rightarrow> Inl err
                 | Inr (i, sa, w2) \<Rightarrow>
                     (let w3 = w2\<lparr>profile :=
                                onPolicy policy
                                  (AddStrategyWeight A (f32_div A (f32_one A) sampleProb))
                                  (profile w2)\<rparr>
                      in if i < length (Children node)
                         then runHelper A k (Children node ! i) player sampleProb
                                traversingPlayer sa w3
                         else Inl IndexPanic)))"
  by pat_completeness auto
termination
proof -
  have child: "size (Children node ! i) < size node" if "i < length (Children node)"
    for node :: "'u GameTreeNode" and i
  proof (cases node)
    case (GameTreeNode t ident pl ks us cs)
    then have "cs ! i \<in> set cs"
      using that by simp
    then have "size (cs ! i) \<le> size_list size cs"
      by (rule size_list_estimation') simp
    then show ?thesis
      using GameTreeNode by simp
  qed
  have sampled: "size child < size node" if "SampleChild node r = Inr (child, r')"
    for node child :: "'u GameTreeNode" and r r'
    using that
    by (auto simp: SampleChild_def rand_Intn_def rand_draw_def NumChildren_def
          split: if_splits intro!: child)
  show ?thesis
    by (relation "measures
        [case_sum
           (case_sum (\<lambda>(A, k, node, rest). size node)
              (case_sum (\<lambda>(A, k, node, rest). size node) (\<lambda>(A, k, node, rest). size node)))
           (case_sum (\<lambda>(A, k, node, rest). size node)
              (case_sum (\<lambda>(A, k, node, rest). size node) (\<lambda>(A, k, node, rest). size node))),
         case_sum
           (case_sum (\<lambda>args. 3) (case_sum (\<lambda>args. 0) (\<lambda>args. 2)))
           (case_sum (\<lambda>args. 1) (case_sum (\<lambda>args. 0) (\<lambda>args. 0))),
         case_sum
           (\<lambda>args. 0)
           (case_sum (\<lambda>args. 0)
              (case_sum (\<lambda>(A, k, node, strategy, player, sampleProb, tp, selected, rest).
                           length selected)
                 (\<lambda>args. 0)))]")
       (auto simp: child sampled)
qed

declare runHelper.simps [simp del] handleChanceNode.simps [simp del]
  handlePlayerNode.simps [simp del] handleTraversingPlayerNode.simps [simp del]
  sampledLoop.simps [simp del] handleSampledPlayerNode.simps [simp del]

text \<open>\<open>Run\<close>: Go's \<open>%\<close> truncates towards zero, as \<open>smod\<close> does.\<close>

definition Run ::
  "('f, 'u) f32ops \<Rightarrow> int \<Rightarrow> 'u GameTreeNode \<Rightarrow> ('f, ('f, 'dp) PolicyTable) world \<Rightarrow>
     error + ('f \<times> ('f, ('f, 'dp) PolicyTable) world)" where
  "Run A k node w =
     (let it = Iter (profile w);
          traversingPlayer = it smod 2;
          sampledActions = Map.empty
      in case runHelper A k node (Player node) (f32_one A) traversingPlayer sampledActions w of
           Inl err \<Rightarrow> Inl err
         | Inr (ev, sa, w1) \<Rightarrow> Inr (ev, w1))"

subsection \<open>Chance sampling\<close>

text \<open>
  This engine sees the strategy profile through the interfaces \<open>StrategyProfile\<close> and
  \<open>NodeStrategy\<close> alone, so the profile is a state of any type with these operations;
  \<open>'h\<close> is the \<open>NodeStrategy\<close> handle that \<open>GetStrategy\<close> returns. This engine reads the
  utility as a \<open>float32\<close>.
\<close>

record ('sp, 'h, 'f) StrategyProfile =
  sp_GetStrategy :: "'f GameTreeNode \<Rightarrow> 'sp \<Rightarrow> error + ('h \<times> 'sp)"
  ns_GetActionProbability :: "'h \<Rightarrow> nat \<Rightarrow> 'sp \<Rightarrow> 'f"
  ns_AddRegret :: "'h \<Rightarrow> 'f \<Rightarrow> 'f \<Rightarrow> 'f list \<Rightarrow> 'sp \<Rightarrow> 'sp"

text \<open>
  Modelled from the spec: \<open>reachProb\<close> and \<open>counterFactualProb\<close> are not among the
  sources. The first is the acting player's own reach probability, the second the product
  of the other reach probabilities.
\<close>

definition reachProb :: "int \<Rightarrow> 'f \<Rightarrow> 'f \<Rightarrow> 'f \<Rightarrow> 'f" where
  "reachProb player p0 p1 pChance = (if player = 0 then p0 else p1)"

definition counterFactualProb :: "('f, 'u) f32ops \<Rightarrow> int \<Rightarrow> 'f \<Rightarrow> 'f \<Rightarrow> 'f \<Rightarrow> 'f" where
  "counterFactualProb A player p0 p1 pChance =
     (if player = 0 then f32_mul A p1 pChance else f32_mul A p0 pChance)"

text \<open>\<open>enumLoop_cs\<close> is the loop of lines 191-203 over all children.\<close>

function
  runHelper_cs ::
    "('sp, 'h, 'f) StrategyProfile \<Rightarrow> ('f, 'u) f32ops \<Rightarrow> 'f GameTreeNode \<Rightarrow> int \<Rightarrow> 'f \<Rightarrow> 'f \<Rightarrow>
       ('f, 'sp) world \<Rightarrow> error + ('f \<times> ('f, 'sp) world)"
and handleChanceNode_cs ::
    "('sp, 'h, 'f) StrategyProfile \<Rightarrow> ('f, 'u) f32ops \<Rightarrow> 'f GameTreeNode \<Rightarrow> int \<Rightarrow> 'f \<Rightarrow> 'f \<Rightarrow>
       ('f, 'sp) world \<Rightarrow> error + ('f \<times> ('f, 'sp) world)"
and handlePlayerNode_cs ::
    "('sp, 'h, 'f) StrategyProfile \<Rightarrow> ('f, 'u) f32ops \<Rightarrow> 'f GameTreeNode \<Rightarrow> 'f \<Rightarrow> 'f \<Rightarrow>
       ('f, 'sp) world \<Rightarrow> error + ('f \<times> ('f, 'sp) world)"
and enumLoop_cs ::
    "('sp, 'h, 'f) StrategyProfile \<Rightarrow> ('f, 'u) f32ops \<Rightarrow> 'f GameTreeNode \<Rightarrow> 'h \<Rightarrow> int \<Rightarrow> 'f \<Rightarrow> 'f \<Rightarrow>
       nat \<Rightarrow> 'f list \<Rightarrow> 'f \<Rightarrow> ('f, 'sp) world \<Rightarrow> error + (('f list \<times> 'f) \<times> ('f, 'sp) world)"
where
  "runHelper_cs P A node lastPlayer reachP0 reachP1 w =
     (let w0 = w\<lparr>calls := calls w @ [CallType (Ident node)]\<rparr> in
      case (case Type node of
              TerminalNode \<Rightarrow> Inr (Utility node lastPlayer, w0)
            | ChanceNode \<Rightarrow> handleChanceNode_cs P A node lastPlayer reachP0 reachP1 w0
            | PlayerNode \<Rightarrow>
                (let sgn = getSign A lastPlayer (Player node) in
                 case handlePlayerNode_cs P A node reachP0 reachP1 w0 of
                   Inl err \<Rightarrow> Inl err
                 | Inr (v, w1) \<Rightarrow> Inr (f32_mul A sgn v, w1)))
      of
        Inl err \<Rightarrow> Inl err
      | Inr (ev, w1) \<Rightarrow> Inr (ev, w1\<lparr>calls := calls w1 @ [CallClose (Ident node)]\<rparr>))"
| "handleChanceNode_cs P A node lastPlayer reachP0 reachP1 w =
     (case SampleChild node (rng w) of
        Inl err \<Rightarrow> Inl err
      | Inr (child, r') \<Rightarrow> runHelper_cs P A child lastPlayer reachP0 reachP1 (w\<lparr>rng := r'\<rparr>))"
| "handlePlayerNode_cs P A node reachP0 reachP1 w =
     (let player = Player node in
      case sp_GetStrategy P node (profile w) of
        Inl err \<Rightarrow> Inl err
      | Inr (strat, sp1) \<Rightarrow>
          (let w1 = w\<lparr>profile := sp1\<rparr>;
               (advantages, pool') = pool_alloc A (NumChildren node) (slicePool w1);
               w2 = w1\<lparr>slicePool := pool'\<rparr>
           in case enumLoop_cs P A node strat player reachP0 reachP1 0 advantages (f32_zero A) w2 of
                Inl err \<Rightarrow> Inl err
              | Inr ((advantages1, expectedUtil), w3) \<Rightarrow>
                  (let advantages2 = AddConst A (f32_neg A expectedUtil) advantages1;
                       reachP = reachProb player reachP0 reachP1 (f32_one A);
                       counterFactualP = counterFactualProb A player reachP0 reachP1 (f32_one A);
                       w4 = w3\<lparr>profile :=
                              ns_AddRegret P strat reachP counterFactualP advantages2 (profile w3)\<rparr>;
                       w5 = w4\<lparr>slicePool := pool_free advantages2 (slicePool w4)\<rparr>
                   in Inr (expectedUtil, w5))))"
| "enumLoop_cs P A node strat player reachP0 reachP1 i advantages expectedUtil w =
     (if i < NumChildren node then
        (let child = Children node ! i;
             p = ns_GetActionProbability P strat i (profile w)
         in case (if player = 0
                  then runHelper_cs P A child player (f32_mul A p reachP0) reachP1 w
                  else runHelper_cs P A child player reachP0 (f32_mul A p reachP1) w) of
              Inl err \<Rightarrow> Inl err
            | Inr (util, w1) \<Rightarrow>
                if i < length advantages
                then enumLoop_cs P A node strat player reachP0 reachP1 (Suc i)
                       (advantages[i := util]) (f32_add A expectedUtil (f32_mul A p util)) w1
                else Inl IndexPanic)
      else Inr ((advantages, expectedUtil), w))"
  by pat_completeness auto
termination
proof -
  have child: "size (Children node ! i) < size node" if "i < length (Children node)"
    for node :: "'f GameTreeNode" and i
  proof (cases node)
    case (GameTreeNode t ident pl ks us cs)
    then have "cs ! i \<in> set cs"
      using that by simp
    then have "size (cs ! i) \<le> size_list size cs"
      by (rule size_list_estimation') simp
    then show ?thesis
      using GameTreeNode by simp
  qed
  have sampled: "size child < size node" if "SampleChild node r = Inr (child, r')"
    for node child :: "'f GameTreeNode" and r r'
    using that
    by (auto simp: SampleChild_def rand_Intn_def rand_draw_def NumChildren_def
          split: if_splits intro!: child)
  show ?thesis
    by (relation "measures
        [case_sum
           (case_sum (\<lambda>(P, A, node, rest). size node) (\<lambda>(P, A, node, rest). size node))
           (case_sum (\<lambda>(P, A, node, rest). size node) (\<lambda>(P, A, node, rest). size node)),
         case_sum
           (case_sum (\<lambda>args. 2) (\<lambda>args. 0))
           (case_sum (\<lambda>args. 1) (\<lambda>args. 0)),
         case_sum
           (\<lambda>args. 0)
           (case_sum (\<lambda>args. 0)
              (\<lambda>(P, A, node, strat, player, reachP0, reachP1, i, rest). NumChildren node - i))]")
       (auto simp: child sampled NumChildren_def)
qed

declare runHelper_cs.simps [simp del] handleChanceNode_cs.simps [simp del]
  handlePlayerNode_cs.simps [simp del] enumLoop_cs.simps [simp del]

definition Run_cs ::
  "('sp, 'h, 'f) StrategyProfile \<Rightarrow> ('f, 'u) f32ops \<Rightarrow> 'f GameTreeNode \<Rightarrow> ('f, 'sp) world \<Rightarrow>
     error + ('f \<times> ('f, 'sp) world)" where
  "Run_cs P A node w = runHelper_cs P A node (Player node) (f32_one A) (f32_one A) w"

section \<open>Fixtures for concrete evaluation\<close>

text \<open>Samples that are byte strings, stored as they are.\<close>

definition rawGob :: "bytes gob" where
  "rawGob = \<lparr>gob_Encode = (\<lambda>s. Inr s), gob_Decode = (\<lambda>v. Inr v)\<rparr>"

text \<open>A full buffer of capacity one that has seen one sample.\<close>

definition fullBuffer :: ReservoirBuffer where
  "fullBuffer =
     \<lparr>path = ''samples.db'', opts = None, maxSize = 1, n = 1, db = [([0], [7])], accesses = []\<rparr>"

text \<open>
  A new buffer on a store that did not exist, and 257 samples (sample \<open>i\<close> is the byte
  string \<open>PutUvarint i\<close>) added to a buffer of capacity 257 and read back.
\<close>

definition emptyBuffer :: "int \<Rightarrow> ReservoirBuffer" where
  "emptyBuffer cap = \<lparr>path = ''samples.db'', opts = None, maxSize = cap, n = 0, db = [], accesses = []\<rparr>"

definition samples257 :: "bytes list" where
  "samples257 = map PutUvarint [0..<257]"

definition scan257 :: "error + bytes list" where
  "scan257 =
     (case addSamples rawGob samples257 (\<lambda>i. 0, emptyBuffer 257) of
        Inl err \<Rightarrow> Inl err
      | Inr (r, b) \<Rightarrow> GetSamples rawGob b)"

text \<open>
  A buffer with saved metadata and the disk that holds its store, closed (\<open>savedDisk\<close>) or
  still held open (\<open>heldDisk\<close>). Three receivers to decode into: a zero-valued one, one
  that already holds options with \<open>NoSync\<close> set, and one that holds options with
  \<open>ErrorIfExist\<close> set. No option here holds an interface value, so the registry that
  covers everything will do.
\<close>

definition savedBuffer :: ReservoirBuffer where
  "savedBuffer =
     \<lparr>path = ''samples.db'',
      opts = Some \<lparr>ErrorIfMissing = False, ErrorIfExist = False, otherOptions = Map.empty\<rparr>,
      maxSize = 2, n = 5, db = [([0], [7]), ([1], [8])], accesses = []\<rparr>"

definition savedDisk :: disk where
  "savedDisk = [''samples.db'' \<mapsto> \<lparr>locked = False, entries = [([0], [7]), ([1], [8])]\<rparr>]"

definition heldDisk :: disk where
  "heldDisk = [''samples.db'' \<mapsto> \<lparr>locked = True, entries = [([0], [7]), ([1], [8])]\<rparr>]"

definition zeroBuffer :: ReservoirBuffer where
  "zeroBuffer = \<lparr>path = [], opts = None, maxSize = 0, n = 0, db = [], accesses = []\<rparr>"

definition tunedBuffer :: ReservoirBuffer where
  "tunedBuffer =
     \<lparr>path = [],
      opts = Some \<lparr>ErrorIfMissing = False, ErrorIfExist = False,
                  otherOptions = [''NoSync'' \<mapsto> ''true'']\<rparr>,
      maxSize = 0, n = 0, db = [], accesses = []\<rparr>"

definition exclusiveBuffer :: ReservoirBuffer where
  "exclusiveBuffer =
     \<lparr>path = [],
      opts = Some \<lparr>ErrorIfMissing = False, ErrorIfExist = True, otherOptions = Map.empty\<rparr>,
      maxSize = 0, n = 0, db = [], accesses = []\<rparr>"

definition allRegistered :: registry where
  "allRegistered os = True"

text \<open>
  Rational arithmetic standing in for \<open>float32\<close>; the two agree on the values used
  here, which \<open>float32\<close> represents and computes exactly. Two player nodes of player 0
  that share the information set key \<open>root\<close>.
\<close>

definition twoChildren :: "rat GameTreeNode" where
  "twoChildren = GameTreeNode PlayerNode 0 0 (\<lambda>p. ''root'') (\<lambda>p. 0)
     [GameTreeNode TerminalNode 1 0 (\<lambda>p. ''leaf'') (\<lambda>p. 1) [],
      GameTreeNode TerminalNode 2 0 (\<lambda>p. ''leaf'') (\<lambda>p. 1) []]"

definition oneChild :: "rat GameTreeNode" where
  "oneChild = GameTreeNode PlayerNode 3 0 (\<lambda>p. ''root'') (\<lambda>p. 0)
     [GameTreeNode TerminalNode 4 0 (\<lambda>p. ''leaf'') (\<lambda>p. 1) []]"

definition exactOps :: "(rat, rat) f32ops" where
  "exactOps = \<lparr>f32_zero = 0, f32_one = 1, f32_add = (+), f32_mul = (*), f32_div = (/),
     f32_neg = uminus, f32_of_int = of_int, f32_of_f64 = id\<rparr>"


text \<open>
  A terminal node, a world with a new policy table, and a discount schedule that leaves
  every policy as it is.
\<close>

definition leaf :: "rat GameTreeNode" where
  "leaf = GameTreeNode TerminalNode 1 0 (\<lambda>p. ''leaf'') (\<lambda>p. 6) []"

definition freshWorld :: "(rat, (rat, unit) PolicyTable) world" where
  "freshWorld = \<lparr>rng = (\<lambda>i. 0), profile = NewPolicyTable (), slicePool = [], calls = []\<rparr>"

definition vanilla :: "(rat, unit) discounting" where
  "vanilla = \<lparr>GetDiscountFactors = (\<lambda>ps it. (1, 1, 1)), NextStrategy = (\<lambda>dp dn ds p. p)\<rparr>"

text \<open>The world after \<open>handleTraversingPlayerNode\<close> with \<open>k = 1\<close> on \<open>twoChildren\<close> in \<open>freshWorld\<close>.\<close>

definition afterTwoChildren :: "(rat, (rat, unit) PolicyTable) world" where
  "afterTwoChildren =
     \<lparr>rng = (\<lambda>i. 0),
      profile =
        \<lparr>params = (), iter = 1,
         policiesByKey =
           [''root'' \<mapsto>
              \<lparr>regretSum = [- 2, 2], strategySum = [0, 0], currentStrategy = [1 / 2, 1 / 2]\<rparr>],
         mayNeedUpdate = {''root''}\<rparr>,
      slicePool = [[- 1, 1]],
      calls = [CallType 2, CallClose 2]\<rparr>"

text \<open>
  A chance node over a node of player 1 over a node of player 0 over two terminal nodes,
  with one more terminal child at the chance node and at the node of player 1.
\<close>

definition mixedTree :: "rat GameTreeNode" where
  "mixedTree =
     GameTreeNode ChanceNode 0 0 (\<lambda>p. ''chance'') (\<lambda>p. 0)
       [GameTreeNode PlayerNode 1 1 (\<lambda>p. ''opp'') (\<lambda>p. 0)
          [GameTreeNode PlayerNode 2 0 (\<lambda>p. ''me'') (\<lambda>p. 0)
             [GameTreeNode TerminalNode 3 0 (\<lambda>p. ''leaf'') (\<lambda>p. if p = 0 then 1 else - 1) [],
              GameTreeNode TerminalNode 4 0 (\<lambda>p. ''leaf'') (\<lambda>p. if p = 0 then 1 else - 1) []],
           GameTreeNode TerminalNode 5 0 (\<lambda>p. ''leaf'') (\<lambda>p. if p = 0 then 1 else - 1) []],
        GameTreeNode TerminalNode 6 0 (\<lambda>p. ''leaf'') (\<lambda>p. if p = 0 then 1 else - 1) []]"

text \<open>A strategy profile without state that plays every action with probability 1/2.\<close>

definition trivialProfile :: "(unit, unit, rat) StrategyProfile" where
  "trivialProfile =
     \<lparr>sp_GetStrategy = (\<lambda>node sp. Inr ((), sp)),
      ns_GetActionProbability = (\<lambda>h i sp. 1 / 2),
      ns_AddRegret = (\<lambda>h reachP cfP adv sp. sp)\<rparr>"

definition unitWorld :: "(rat, unit) world" where
  "unitWorld = \<lparr>rng = (\<lambda>i. 0), profile = (), slicePool = [], calls = []\<rparr>"

section \<open>Notions used to state the properties\<close>

text \<open>
  The children of \<open>node\<close> at the indices \<open>selected\<close> are evaluated one after the other by
  \<open>runHelper\<close>, each from the state the previous one left, with the given last player and
  sampling probability; \<open>utils\<close> are the values they return.
\<close>

inductive evalChildren ::
  "('f, 'u) f32ops \<Rightarrow> int \<Rightarrow> 'u GameTreeNode \<Rightarrow> int \<Rightarrow> 'f \<Rightarrow> int \<Rightarrow> nat list \<Rightarrow> 'f list \<Rightarrow>
     sampledActions \<times> ('f, ('f, 'dp) PolicyTable) world \<Rightarrow>
     sampledActions \<times> ('f, ('f, 'dp) PolicyTable) world \<Rightarrow> bool"
  for A k node player sampleProb traversingPlayer
where
  evalNone: "evalChildren A k node player sampleProb traversingPlayer [] [] s s"
| evalNext:
    "i < length (Children node) \<Longrightarrow>
     runHelper A k (Children node ! i) player sampleProb traversingPlayer sa w = Inr (util, sa1, w1) \<Longrightarrow>
     evalChildren A k node player sampleProb traversingPlayer rest utils (sa1, w1) s' \<Longrightarrow>
     evalChildren A k node player sampleProb traversingPlayer (i # rest) (util # utils) (sa, w) s'"

text \<open>
  \<open>scatter\<close> writes each value at its index of the buffer; \<open>weighted\<close> adds up
  \<open>strategy[i] * util\<close> over the chosen actions, left to right.
\<close>

definition scatter :: "nat list \<Rightarrow> 'f list \<Rightarrow> 'f list \<Rightarrow> 'f list" where
  "scatter sel utils regs = fold (\<lambda>(i, u) r. r[i := u]) (zip sel utils) regs"

definition weighted :: "('f, 'u) f32ops \<Rightarrow> 'f list \<Rightarrow> nat list \<Rightarrow> 'f list \<Rightarrow> 'f \<Rightarrow> 'f" where
  "weighted A strategy sel utils c =
     foldl (\<lambda>c (i, u). f32_add A c (f32_mul A (strategy ! i) u)) c (zip sel utils)"

text \<open>
  The calls a returning evaluation of a node makes on nodes: \<open>Type()\<close> on the node, then
  the calls of the evaluations of the children it visits (at distinct indices, one after
  the other), then \<open>Close()\<close> on the node, as the last call.
\<close>

inductive scoped :: "'u GameTreeNode \<Rightarrow> nodeCall list \<Rightarrow> bool"
  and scopedChildren :: "'u GameTreeNode \<Rightarrow> nat list \<Rightarrow> nodeCall list \<Rightarrow> bool"
where
  scopedNode:
    "scopedChildren node visited es \<Longrightarrow> distinct visited \<Longrightarrow>
     scoped node (CallType (Ident node) # es @ [CallClose (Ident node)])"
| scopedNone: "scopedChildren node [] []"
| scopedNext:
    "i < length (Children node) \<Longrightarrow> scoped (Children node ! i) es \<Longrightarrow>
     scopedChildren node rest es' \<Longrightarrow> scopedChildren node (i # rest) (es @ es')"

text \<open>The identities of the nodes of a tree, and the calls there can be on them.\<close>

fun idents :: "'u GameTreeNode \<Rightarrow> nat list" where
  "idents (GameTreeNode t i p ks us cs) = i # concat (map idents cs)"

definition eventsOf :: "nat list \<Rightarrow> nodeCall set" where
  "eventsOf ids = CallType ` set ids \<union> CallClose ` set ids"

section \<open>Properties of the reservoir buffer\<close>

lemma int64_id: "- (2 ^ 63) \<le> x \<Longrightarrow> x < 2 ^ 63 \<Longrightarrow> int64 x = x"
  unfolding int64_def by (simp add: mod_pos_pos_trivial)

lemma uint64_id: "0 \<le> x \<Longrightarrow> x < 2 ^ 64 \<Longrightarrow> uint64 x = nat x"
  unfolding uint64_def by simp

lemma AddSample_cases:
  assumes cnt: "0 \<le> n b" "n b + 1 < 2 ^ 63"
    and enc: "gob_Encode G s = Inr v"
  shows "(n b + 1 \<le> maxSize b \<longrightarrow>
            AddSample G s (r, b) =
              Inr (r, b\<lparr>n := n b + 1,
                        db := db_Put (PutUvarint (nat (n b))) v (db b),
                        accesses := accesses b @
                          [MxLock, WriteN (n b + 1), DbPut (PutUvarint (nat (n b))), MxUnlock]\<rparr>))
       \<and> (maxSize b < n b + 1 \<longrightarrow>
            (let m = int (r 0 mod nat (n b + 1)) in
               0 \<le> m \<and> m < n b + 1 \<and>
               AddSample G s (r, b) =
                 Inr (\<lambda>i. r (Suc i),
                      if m < maxSize b
                      then b\<lparr>n := n b + 1,
                             db := db_Put (PutUvarint (nat m)) v (db b),
                             accesses := accesses b @
                               [MxLock, WriteN (n b + 1), ReadRand m,
                                DbPut (PutUvarint (nat m)), MxUnlock]\<rparr>
                      else b\<lparr>n := n b + 1,
                             accesses := accesses b @
                               [MxLock, WriteN (n b + 1), ReadRand m, MxUnlock]\<rparr>)))"
proof -
  have w: "int64 (n b + 1) = n b + 1"
    using cnt by (intro int64_id) auto
  have pos: "0 < nat (n b + 1)"
    using cnt by linarith
  have "r 0 mod nat (n b + 1) < nat (n b + 1)"
    using pos by (rule mod_less_divisor)
  then have m0: "int (r 0 mod nat (n b + 1)) < n b + 1"
    by linarith
  have um: "uint64 (int (r 0 mod nat (n b + 1))) = r 0 mod nat (n b + 1)"
    using m0 cnt by (subst uint64_id) auto
  have un: "uint64 (n b) = nat (n b)"
    using cnt by (intro uint64_id) auto
  show ?thesis
    using cnt enc m0
    by (auto simp: AddSample_def Let_def w um un putSample_def mx_Lock_def mx_Unlock_def
          rand_Intn_def rand_draw_def)
qed

text \<open>
  Claim C2. One call of \<open>AddSample\<close> on a buffer whose count \<open>n\<close> is a count (not negative,
  below the largest \<open>int\<close>) with a sample that encodes: the count becomes \<open>n + 1\<close>; when
  \<open>n + 1 \<le> maxSize\<close> the sample is put at slot \<open>n\<close>; otherwise one integer \<open>m\<close> with
  \<open>0 \<le> m < n + 1\<close> is drawn, and the sample is put at slot \<open>m\<close> exactly when \<open>m < maxSize\<close>
  and dropped otherwise. The count, the draw and the put all lie between the one \<open>Lock\<close>
  and the one \<open>Unlock\<close> of the call.
\<close>

theorem AddSample_step:
  assumes cnt: "0 \<le> n b" "n b + 1 < 2 ^ 63"
    and enc: "gob_Encode G s = Inr v"
  shows "(n b + 1 \<le> maxSize b \<longrightarrow>
            AddSample G s (r, b) =
              Inr (r, b\<lparr>n := n b + 1,
                        db := db_Put (PutUvarint (nat (n b))) v (db b),
                        accesses := accesses b @
                          [MxLock, WriteN (n b + 1), DbPut (PutUvarint (nat (n b))), MxUnlock]\<rparr>))
       \<and> (maxSize b < n b + 1 \<longrightarrow>
            (let m = int (r 0 mod nat (n b + 1)) in
               0 \<le> m \<and> m < n b + 1 \<and>
               AddSample G s (r, b) =
                 Inr (\<lambda>i. r (Suc i),
                      if m < maxSize b
                      then b\<lparr>n := n b + 1,
                             db := db_Put (PutUvarint (nat m)) v (db b),
                             accesses := accesses b @
                               [MxLock, WriteN (n b + 1), ReadRand m,
                                DbPut (PutUvarint (nat m)), MxUnlock]\<rparr>
                      else b\<lparr>n := n b + 1,
                             accesses := accesses b @
                               [MxLock, WriteN (n b + 1), ReadRand m, MxUnlock]\<rparr>)))"
  using assms by (rule AddSample_cases)

theorem AddSample_step_witness:
  "0 \<le> n fullBuffer \<and> n fullBuffer + 1 < 2 ^ 63 \<and> gob_Encode rawGob [9] = Inr [9] \<and>
   AddSample rawGob [9] (\<lambda>i. 0, fullBuffer) =
     Inr (\<lambda>i. 0,
          fullBuffer\<lparr>n := 2, db := [([0], [9])],
            accesses := [MxLock, WriteN 2, ReadRand 0, DbPut [0], MxUnlock]\<rparr>)"
  using AddSample_step [of fullBuffer rawGob "[9]" "[9]" "\<lambda>i. 0"]
  by (simp add: fullBuffer_def rawGob_def PutUvarint.simps)

lemma PutUvarint_not_Nil: "PutUvarint x \<noteq> []" "[] \<noteq> PutUvarint x"
  by (subst PutUvarint.simps, simp)+

lemma PutUvarint_inj: "PutUvarint x = PutUvarint y \<Longrightarrow> x = y"
proof (induction x arbitrary: y rule: PutUvarint.induct)
  case (1 x)
  show ?case
  proof (cases "128 \<le> x")
    case True
    then have ex: "PutUvarint x = (x mod 128 + 128) # PutUvarint (x div 128)"
      by (subst PutUvarint.simps) simp
    have "128 \<le> y"
    proof (rule ccontr)
      assume "\<not> 128 \<le> y"
      then have "PutUvarint y = [y]"
        by (subst PutUvarint.simps) simp
      with ex "1.prems" show False
        by (simp add: PutUvarint_not_Nil)
    qed
    then have ey: "PutUvarint y = (y mod 128 + 128) # PutUvarint (y div 128)"
      by (subst PutUvarint.simps) simp
    from ex ey "1.prems" have m: "x mod 128 = y mod 128"
      and t: "PutUvarint (x div 128) = PutUvarint (y div 128)"
      by simp_all
    from "1.IH" [OF True t] have "x div 128 = y div 128" .
    with m show ?thesis
      by (metis div_mult_mod_eq)
  next
    case False
    then have ex: "PutUvarint x = [x]"
      by (subst PutUvarint.simps) simp
    have "\<not> 128 \<le> y"
    proof
      assume "128 \<le> y"
      then have "PutUvarint y = (y mod 128 + 128) # PutUvarint (y div 128)"
        by (subst PutUvarint.simps) simp
      with ex "1.prems" show False
        by (simp add: PutUvarint_not_Nil)
    qed
    then have "PutUvarint y = [y]"
      by (subst PutUvarint.simps) simp
    with ex "1.prems" show ?thesis
      by simp
  qed
qed

lemma inj_PutUvarint: "inj_on PutUvarint S"
  by (rule inj_onI) (rule PutUvarint_inj)

lemma db_Put_keys: "fst ` set (db_Put k v d) = insert k (fst ` set d)"
  by (induction k v d rule: db_Put.induct) auto

lemma db_Put_sorted:
  "sorted_wrt (<) (map fst d) \<Longrightarrow> sorted_wrt (<) (map fst (db_Put k v d))"
proof (induction k v d rule: db_Put.induct)
  case (1 k v)
  then show ?case by simp
next
  case (2 k v k' v' rest)
  show ?case
  proof (cases "k < k' \<or> k = k'")
    case True
    with "2.prems" show ?thesis by auto
  next
    case False
    then have gt: "k' < k" by auto
    from "2.prems" have rest: "sorted_wrt (<) (map fst rest)" "\<forall>x \<in> fst ` set rest. k' < x"
      by auto
    have "\<forall>x \<in> fst ` set (db_Put k v rest). k' < x"
      unfolding db_Put_keys using gt rest by auto
    moreover have "sorted_wrt (<) (map fst (db_Put k v rest))"
      using False rest "2.IH" by auto
    ultimately show ?thesis
      using False by auto
  qed
qed

lemma db_Put_values: "snd ` set (db_Put k v d) \<subseteq> insert v (snd ` set d)"
  by (induction k v d rule: db_Put.induct) auto

lemma db_Put_new:
  "k \<notin> fst ` set d \<Longrightarrow> mset (db_Put k v d) = add_mset (k, v) (mset d)"
  by (induction k v d rule: db_Put.induct) auto

lemma decodeAll_Inr:
  "decodeAll G d = Inr out \<longleftrightarrow> list_all2 (\<lambda>e s. gob_Decode G (snd e) = Inr s) d out"
proof (induction d arbitrary: out)
  case Nil
  then show ?case by auto
next
  case (Cons e d)
  obtain k v where e: "e = (k, v)" by (cases e)
  show ?case
  proof (cases "gob_Decode G v")
    case (Inl err)
    then show ?thesis
      unfolding e by (auto simp: list_all2_Cons1)
  next
    case (Inr s)
    show ?thesis
    proof (cases "decodeAll G d")
      case (Inl err)
      then have "\<not> list_all2 (\<lambda>e s. gob_Decode G (snd e) = Inr s) d ss" for ss
        using Cons.IH [of ss] by simp
      then show ?thesis
        unfolding e using Inr Inl by (auto simp: list_all2_Cons1)
    next
      case (Inr ss)
      then have "list_all2 (\<lambda>e s. gob_Decode G (snd e) = Inr s) d ss' \<longleftrightarrow> ss' = ss" for ss'
        using Cons.IH [of ss'] by auto
      then show ?thesis
        unfolding e using \<open>gob_Decode G v = Inr s\<close> Inr by (auto simp: list_all2_Cons1)
    qed
  qed
qed

lemma decodeAll_total:
  "\<forall>v \<in> snd ` set d. \<exists>s. gob_Decode G v = Inr s \<Longrightarrow> \<exists>out. decodeAll G d = Inr out"
proof (induction d)
  case Nil
  then show ?case by simp
next
  case (Cons e d)
  obtain k v where e: "e = (k, v)" by (cases e)
  from Cons.prems obtain s where s: "gob_Decode G v = Inr s"
    unfolding e by auto
  from Cons obtain out where "decodeAll G d = Inr out"
    by auto
  with s show ?case
    unfolding e by simp
qed

lemma PutUvarint_two_bytes:
  assumes "128 \<le> x" "x < 256"
  shows "PutUvarint x = [x, 1]"
proof -
  have d: "x div 128 = 1"
    by (rule div_nat_eqI) (use assms in simp_all)
  have "x mod 128 = x - 128 * (x div 128)"
    by (simp add: minus_mult_div_eq_mod)
  then have m: "x mod 128 + 128 = x"
    using assms d by simp
  show ?thesis
    using assms by (simp add: PutUvarint.simps [of x] PutUvarint.simps [of "Suc 0"] d m)
qed

lemma PutUvarint_mono_256:
  assumes "i < j" "j < 256"
  shows "PutUvarint i < PutUvarint j"
proof (cases "j < 128")
  case True
  with assms show ?thesis
    by (simp add: PutUvarint.simps)
next
  case False
  then have j: "PutUvarint j = [j, 1]"
    using assms by (simp add: PutUvarint_two_bytes)
  show ?thesis
  proof (cases "i < 128")
    case True
    with False show ?thesis
      unfolding j by (simp add: PutUvarint.simps [of i])
  next
    case i: False
    then have "PutUvarint i = [i, 1]"
      using assms by (simp add: PutUvarint_two_bytes)
    with assms show ?thesis
      unfolding j by simp
  qed
qed

lemma db_Put_last: "\<forall>e \<in> set d. fst e < k \<Longrightarrow> db_Put k v d = d @ [(k, v)]"
  by (induction k v d rule: db_Put.induct) auto

lemma AddSample_inv:
  assumes cnt: "0 \<le> n b" "n b + 1 < 2 ^ 63"
    and srt: "sorted_wrt (<) (map fst (db b))"
    and keys: "fst ` set (db b) = PutUvarint ` {0..<nat (min (n b) (maxSize b))}"
    and enc: "gob_Encode G s = Inr v"
  shows "\<exists>r' b'. AddSample G s (r, b) = Inr (r', b') \<and> n b' = n b + 1 \<and>
           maxSize b' = maxSize b \<and>
           sorted_wrt (<) (map fst (db b')) \<and>
           fst ` set (db b') = PutUvarint ` {0..<nat (min (n b') (maxSize b'))} \<and>
           snd ` set (db b') \<subseteq> insert v (snd ` set (db b)) \<and>
           (n b + 1 \<le> maxSize b \<longrightarrow>
              mset (db b') = add_mset (PutUvarint (nat (n b)), v) (mset (db b))) \<and>
           (n b + 1 \<le> maxSize b \<and> n b < 256 \<longrightarrow>
              db b' = db b @ [(PutUvarint (nat (n b)), v)])"
proof (cases "n b + 1 \<le> maxSize b")
  case True
  let ?k = "PutUvarint (nat (n b))"
  let ?b' = "b\<lparr>n := n b + 1, db := db_Put ?k v (db b),
                accesses := accesses b @ [MxLock, WriteN (n b + 1), DbPut ?k, MxUnlock]\<rparr>"
  from AddSample_cases [OF cnt enc, of r] True
  have eq: "AddSample G s (r, b) = Inr (r, ?b')"
    by simp
  have old: "fst ` set (db b) = PutUvarint ` {0..<nat (n b)}"
    using keys True by (simp add: min_def)
  have new: "?k \<notin> fst ` set (db b)"
    unfolding old by (auto dest: PutUvarint_inj)
  have "{0..<nat (n b + 1)} = insert (nat (n b)) {0..<nat (n b)}"
    using cnt by auto
  then have keys': "insert ?k (fst ` set (db b)) = PutUvarint ` {0..<nat (min (n b + 1) (maxSize b))}"
    unfolding old using True by (simp add: min_def)
  have app: "db_Put ?k v (db b) = db b @ [(?k, v)]" if "n b < 256"
  proof (rule db_Put_last)
    show "\<forall>e \<in> set (db b). fst e < ?k"
    proof
      fix e
      assume "e \<in> set (db b)"
      then have "fst e \<in> PutUvarint ` {0..<nat (n b)}"
        using old by auto
      then obtain i where "i < nat (n b)" "fst e = PutUvarint i"
        by auto
      then show "fst e < ?k"
        using that cnt by (simp add: PutUvarint_mono_256)
    qed
  qed
  show ?thesis
    unfolding eq using True new keys' db_Put_values [of ?k v "db b"] app
    by (simp add: db_Put_sorted [OF srt] db_Put_keys db_Put_new)
next
  case False
  let ?m = "int (r 0 mod nat (n b + 1))"
  from AddSample_cases [OF cnt enc, of r] False
  have m: "0 \<le> ?m" "?m < n b + 1"
    and eq: "AddSample G s (r, b) =
      Inr (\<lambda>i. r (Suc i),
           if ?m < maxSize b
           then b\<lparr>n := n b + 1, db := db_Put (PutUvarint (nat ?m)) v (db b),
                  accesses := accesses b @
                    [MxLock, WriteN (n b + 1), ReadRand ?m, DbPut (PutUvarint (nat ?m)), MxUnlock]\<rparr>
           else b\<lparr>n := n b + 1,
                  accesses := accesses b @ [MxLock, WriteN (n b + 1), ReadRand ?m, MxUnlock]\<rparr>)"
    by (simp_all add: Let_def)
  have full: "min (n b) (maxSize b) = maxSize b" "min (n b + 1) (maxSize b) = maxSize b"
    using False by (simp_all add: min_def)
  show ?thesis
  proof (cases "?m < maxSize b")
    case True
    then have "nat ?m \<in> {0..<nat (maxSize b)}"
      by auto
    then have "PutUvarint (nat ?m) \<in> fst ` set (db b)"
      unfolding keys full by (rule imageI)
    then have "insert (PutUvarint (nat ?m)) (fst ` set (db b)) = fst ` set (db b)"
      by auto
    then show ?thesis
      unfolding eq using True False keys db_Put_values [of "PutUvarint (nat ?m)" v "db b"]
      by (simp add: db_Put_sorted [OF srt] db_Put_keys full del: of_nat_mod)
  next
    case notput: False
    show ?thesis
      unfolding eq using notput False keys srt
      by (auto simp add: full simp del: of_nat_mod)
  qed
qed

lemma addSamples_inv:
  assumes "0 \<le> n b" "n b + int (length ss) < 2 ^ 63"
    and "sorted_wrt (<) (map fst (db b))"
    and "fst ` set (db b) = PutUvarint ` {0..<nat (min (n b) (maxSize b))}"
    and "\<forall>s \<in> set ss. \<exists>v. gob_Encode G s = Inr v"
  shows "\<exists>r' b'. addSamples G ss (r, b) = Inr (r', b') \<and> n b' = n b + int (length ss) \<and>
           maxSize b' = maxSize b \<and>
           sorted_wrt (<) (map fst (db b')) \<and>
           fst ` set (db b') = PutUvarint ` {0..<nat (min (n b') (maxSize b'))} \<and>
           snd ` set (db b') \<subseteq> snd ` set (db b) \<union> (\<lambda>x. projr (gob_Encode G x)) ` set ss \<and>
           (n b + int (length ss) \<le> maxSize b \<longrightarrow>
              mset (map snd (db b')) =
                mset (map snd (db b)) + mset (map (\<lambda>x. projr (gob_Encode G x)) ss)) \<and>
           (n b + int (length ss) \<le> maxSize b \<longrightarrow>
              (\<forall>e \<in> set (db b'). e \<in> set (db b) \<or>
                 (\<exists>i < length ss. e = (PutUvarint (nat (n b) + i), projr (gob_Encode G (ss ! i)))))) \<and>
           (n b + int (length ss) \<le> maxSize b \<and> n b + int (length ss) \<le> 256 \<longrightarrow>
              map snd (db b') = map snd (db b) @ map (\<lambda>x. projr (gob_Encode G x)) ss)"
  using assms
proof (induction ss arbitrary: r b)
  case Nil
  then show ?case by simp
next
  case (Cons s ss)
  from Cons.prems obtain v where v: "gob_Encode G s = Inr v"
    by auto
  have cnt: "0 \<le> n b" "n b + 1 < 2 ^ 63"
    using Cons.prems by auto
  from AddSample_inv [OF cnt Cons.prems(3,4) v, of r]
  obtain r1 b1 where step: "AddSample G s (r, b) = Inr (r1, b1)"
    and n1: "n b1 = n b + 1" and c1: "maxSize b1 = maxSize b"
    and s1: "sorted_wrt (<) (map fst (db b1))"
    and k1: "fst ` set (db b1) = PutUvarint ` {0..<nat (min (n b1) (maxSize b1))}"
    and v1: "snd ` set (db b1) \<subseteq> insert v (snd ` set (db b))"
    and m1: "n b + 1 \<le> maxSize b \<longrightarrow>
              mset (db b1) = add_mset (PutUvarint (nat (n b)), v) (mset (db b))"
    and a1: "n b + 1 \<le> maxSize b \<and> n b < 256 \<longrightarrow>
              db b1 = db b @ [(PutUvarint (nat (n b)), v)]"
    by blast
  have p1: "0 \<le> n b1" "n b1 + int (length ss) < 2 ^ 63"
    using Cons.prems n1 by auto
  have e1: "\<forall>s \<in> set ss. \<exists>v. gob_Encode G s = Inr v"
    using Cons.prems by auto
  from Cons.IH [OF p1 s1 k1 e1, of r1]
  obtain r2 b2 where rest: "addSamples G ss (r1, b1) = Inr (r2, b2)"
    and n2: "n b2 = n b1 + int (length ss)" and c2: "maxSize b2 = maxSize b1"
    and s2: "sorted_wrt (<) (map fst (db b2))"
    and k2: "fst ` set (db b2) = PutUvarint ` {0..<nat (min (n b2) (maxSize b2))}"
    and v2: "snd ` set (db b2) \<subseteq> snd ` set (db b1) \<union> (\<lambda>x. projr (gob_Encode G x)) ` set ss"
    and m2: "n b1 + int (length ss) \<le> maxSize b1 \<longrightarrow>
              mset (map snd (db b2)) =
                mset (map snd (db b1)) + mset (map (\<lambda>x. projr (gob_Encode G x)) ss)"
    and e2: "n b1 + int (length ss) \<le> maxSize b1 \<longrightarrow>
              (\<forall>e \<in> set (db b2). e \<in> set (db b1) \<or>
                 (\<exists>i < length ss. e = (PutUvarint (nat (n b1) + i), projr (gob_Encode G (ss ! i)))))"
    and a2: "n b1 + int (length ss) \<le> maxSize b1 \<and> n b1 + int (length ss) \<le> 256 \<longrightarrow>
              map snd (db b2) = map snd (db b1) @ map (\<lambda>x. projr (gob_Encode G x)) ss"
    by blast
  have all: "addSamples G (s # ss) (r, b) = Inr (r2, b2)"
    using step rest by simp
  have vals: "snd ` set (db b2) \<subseteq> snd ` set (db b) \<union> (\<lambda>x. projr (gob_Encode G x)) ` set (s # ss)"
  proof
    fix x
    assume "x \<in> snd ` set (db b2)"
    with v2 have "x \<in> snd ` set (db b1) \<or> x \<in> (\<lambda>x. projr (gob_Encode G x)) ` set ss"
      by blast
    moreover have "v = (\<lambda>x. projr (gob_Encode G x)) s"
      using v by simp
    ultimately show "x \<in> snd ` set (db b) \<union> (\<lambda>x. projr (gob_Encode G x)) ` set (s # ss)"
      using v1 by auto
  qed
  have ms: "mset (map snd (db b2)) =
              mset (map snd (db b)) + mset (map (\<lambda>x. projr (gob_Encode G x)) (s # ss))"
    if le: "n b + int (length (s # ss)) \<le> maxSize b"
  proof -
    have "mset (db b1) = add_mset (PutUvarint (nat (n b)), v) (mset (db b))"
      using m1 le by auto
    then have "mset (map snd (db b1)) = add_mset v (mset (map snd (db b)))"
      by (metis image_mset_add_mset mset_map snd_conv)
    moreover have "mset (map snd (db b2)) =
                mset (map snd (db b1)) + mset (map (\<lambda>x. projr (gob_Encode G x)) ss)"
      using m2 le n1 c1 by auto
    ultimately show ?thesis
      using v by simp
  qed
  have es: "\<forall>e \<in> set (db b2). e \<in> set (db b) \<or>
              (\<exists>i < length (s # ss).
                 e = (PutUvarint (nat (n b) + i), projr (gob_Encode G ((s # ss) ! i))))"
    if le: "n b + int (length (s # ss)) \<le> maxSize b"
  proof
    fix e
    assume e: "e \<in> set (db b2)"
    have "mset (db b1) = add_mset (PutUvarint (nat (n b)), v) (mset (db b))"
      using m1 le by auto
    then have s1: "set (db b1) = insert (PutUvarint (nat (n b)), v) (set (db b))"
      by (metis set_mset_add_mset_insert set_mset_mset)
    from e2 le n1 c1 e
    consider "e \<in> set (db b1)"
      | i where "i < length ss" "e = (PutUvarint (nat (n b1) + i), projr (gob_Encode G (ss ! i)))"
      by auto
    then show "e \<in> set (db b) \<or>
              (\<exists>i < length (s # ss).
                 e = (PutUvarint (nat (n b) + i), projr (gob_Encode G ((s # ss) ! i))))"
    proof cases
      case 1
      with s1 have "e \<in> set (db b) \<or> e = (PutUvarint (nat (n b) + 0), projr (gob_Encode G ((s # ss) ! 0)))"
        using v by auto
      then show ?thesis
        by (metis length_greater_0_conv list.distinct(1))
    next
      case (2 i)
      have "nat (n b1) + i = nat (n b) + Suc i"
        using n1 cnt by simp
      with 2 have "Suc i < length (s # ss)"
        "e = (PutUvarint (nat (n b) + Suc i), projr (gob_Encode G ((s # ss) ! Suc i)))"
        by simp_all
      then show ?thesis
        by blast
    qed
  qed
  have ap: "map snd (db b2) = map snd (db b) @ map (\<lambda>x. projr (gob_Encode G x)) (s # ss)"
    if le: "n b + int (length (s # ss)) \<le> maxSize b \<and> n b + int (length (s # ss)) \<le> 256"
  proof -
    have "db b1 = db b @ [(PutUvarint (nat (n b)), v)]"
      using a1 le by auto
    moreover have "map snd (db b2) = map snd (db b1) @ map (\<lambda>x. projr (gob_Encode G x)) ss"
      using a2 le n1 c1 by auto
    ultimately show ?thesis
      using v by simp
  qed
  have "n b2 = n b + int (length (s # ss))" "maxSize b2 = maxSize b"
    using n1 n2 c1 c2 by simp_all
  with s2 k2 vals ms es ap show ?case
    unfolding all by blast
qed

lemma fresh_buffer:
  assumes "d p = None" "NewReservoirBuffer d p os cap = Inr b0"
  shows "b0 = \<lparr>path = p, opts = os, maxSize = cap, n = 0, db = [], accesses = []\<rparr>"
  using assms by (auto simp: NewReservoirBuffer_def OpenFile_def split: if_splits)

lemma decoded_map:
  "list_all2 (\<lambda>e s. gob_Decode G (snd e) = Inr s) xs out \<Longrightarrow>
     out = map (\<lambda>e. projr (gob_Decode G (snd e))) xs"
  by (induction rule: list_all2_induct) auto

lemma reservoir_after:
  assumes b0: "n b0 = 0" "db b0 = []"
    and len: "int (length ss) < 2 ^ 63"
    and codec: "\<forall>s \<in> set ss. \<exists>v. gob_Encode G s = Inr v \<and> gob_Decode G v = Inr s"
  shows "\<exists>r' b' out. addSamples G ss (r, b0) = Inr (r', b') \<and>
           n b' = int (length ss) \<and> maxSize b' = maxSize b0 \<and>
           sorted_wrt (<) (map fst (db b')) \<and>
           fst ` set (db b') = PutUvarint ` {0..<nat (min (int (length ss)) (maxSize b0))} \<and>
           length (db b') = nat (min (int (length ss)) (maxSize b0)) \<and>
           GetSamples G b' = Inr out \<and>
           list_all2 (\<lambda>e s. gob_Decode G (snd e) = Inr s) (db b') out \<and>
           (int (length ss) \<le> maxSize b0 \<longrightarrow> mset out = mset ss) \<and>
           (int (length ss) \<le> maxSize b0 \<longrightarrow>
              (\<forall>e \<in> set (db b'). \<exists>i < length ss.
                 e = (PutUvarint i, projr (gob_Encode G (ss ! i))))) \<and>
           (int (length ss) \<le> maxSize b0 \<and> length ss \<le> 256 \<longrightarrow> out = ss)"
proof -
  have enc: "\<forall>s \<in> set ss. \<exists>v. gob_Encode G s = Inr v"
    using codec by blast
  have "\<exists>r' b'. addSamples G ss (r, b0) = Inr (r', b') \<and> n b' = n b0 + int (length ss) \<and>
           maxSize b' = maxSize b0 \<and>
           sorted_wrt (<) (map fst (db b')) \<and>
           fst ` set (db b') = PutUvarint ` {0..<nat (min (n b') (maxSize b'))} \<and>
           snd ` set (db b') \<subseteq> snd ` set (db b0) \<union> (\<lambda>x. projr (gob_Encode G x)) ` set ss \<and>
           (n b0 + int (length ss) \<le> maxSize b0 \<longrightarrow>
              mset (map snd (db b')) =
                mset (map snd (db b0)) + mset (map (\<lambda>x. projr (gob_Encode G x)) ss)) \<and>
           (n b0 + int (length ss) \<le> maxSize b0 \<longrightarrow>
              (\<forall>e \<in> set (db b'). e \<in> set (db b0) \<or>
                 (\<exists>i < length ss. e = (PutUvarint (nat (n b0) + i), projr (gob_Encode G (ss ! i)))))) \<and>
           (n b0 + int (length ss) \<le> maxSize b0 \<and> n b0 + int (length ss) \<le> 256 \<longrightarrow>
              map snd (db b') = map snd (db b0) @ map (\<lambda>x. projr (gob_Encode G x)) ss)"
    by (rule addSamples_inv) (use b0 len enc in simp_all)
  then obtain r' b' where run: "addSamples G ss (r, b0) = Inr (r', b')"
    and n0: "n b' = n b0 + int (length ss)" and c': "maxSize b' = maxSize b0"
    and srt: "sorted_wrt (<) (map fst (db b'))"
    and keys: "fst ` set (db b') = PutUvarint ` {0..<nat (min (n b') (maxSize b'))}"
    and vals0: "snd ` set (db b') \<subseteq> snd ` set (db b0) \<union> (\<lambda>x. projr (gob_Encode G x)) ` set ss"
    and ms0: "n b0 + int (length ss) \<le> maxSize b0 \<longrightarrow>
              mset (map snd (db b')) =
                mset (map snd (db b0)) + mset (map (\<lambda>x. projr (gob_Encode G x)) ss)"
    and es0: "n b0 + int (length ss) \<le> maxSize b0 \<longrightarrow>
              (\<forall>e \<in> set (db b'). e \<in> set (db b0) \<or>
                 (\<exists>i < length ss. e = (PutUvarint (nat (n b0) + i), projr (gob_Encode G (ss ! i)))))"
    and ap0: "n b0 + int (length ss) \<le> maxSize b0 \<and> n b0 + int (length ss) \<le> 256 \<longrightarrow>
              map snd (db b') = map snd (db b0) @ map (\<lambda>x. projr (gob_Encode G x)) ss"
    by blast
  have n': "n b' = int (length ss)"
    using n0 b0 by simp
  have vals: "snd ` set (db b') \<subseteq> (\<lambda>x. projr (gob_Encode G x)) ` set ss"
    using vals0 b0 by simp
  have ms: "int (length ss) \<le> maxSize b0 \<longrightarrow>
              mset (map snd (db b')) = mset (map (\<lambda>x. projr (gob_Encode G x)) ss)"
    using ms0 b0 by simp
  have es: "int (length ss) \<le> maxSize b0 \<longrightarrow>
              (\<forall>e \<in> set (db b'). \<exists>i < length ss.
                 e = (PutUvarint i, projr (gob_Encode G (ss ! i))))"
    using es0 b0 by simp
  have ap: "int (length ss) \<le> maxSize b0 \<and> length ss \<le> 256 \<longrightarrow>
              map snd (db b') = map (\<lambda>x. projr (gob_Encode G x)) ss"
    using ap0 b0 by simp
  let ?M = "nat (min (int (length ss)) (maxSize b0))"
  have keys': "fst ` set (db b') = PutUvarint ` {0..<?M}"
    using keys n' c' by simp
  have "distinct (map fst (db b'))"
    using srt by (simp add: strict_sorted_iff)
  then have "length (map fst (db b')) = card (set (map fst (db b')))"
    by (rule distinct_card [symmetric])
  also have "\<dots> = card (PutUvarint ` {0..<?M})"
    using keys' by simp
  also have "\<dots> = ?M"
    by (simp add: card_image inj_PutUvarint)
  finally have size: "length (db b') = ?M"
    by simp
  have "\<forall>v \<in> snd ` set (db b'). \<exists>s. gob_Decode G v = Inr s"
  proof
    fix v
    assume "v \<in> snd ` set (db b')"
    with vals obtain s where "s \<in> set ss" "v = projr (gob_Encode G s)"
      by blast
    with codec show "\<exists>s. gob_Decode G v = Inr s"
      by force
  qed
  then obtain out where out: "decodeAll G (db b') = Inr out"
    using decodeAll_total by blast
  then have rel: "list_all2 (\<lambda>e s. gob_Decode G (snd e) = Inr s) (db b') out"
    by (simp add: decodeAll_Inr)
  have all: "mset out = mset ss" if le: "int (length ss) \<le> maxSize b0"
  proof -
    have "out = map (\<lambda>v. projr (gob_Decode G v)) (map snd (db b'))"
      using decoded_map [OF rel] by (simp add: comp_def)
    then have "mset out = image_mset (\<lambda>v. projr (gob_Decode G v)) (mset (map snd (db b')))"
      by (simp only: mset_map)
    also have "\<dots> = image_mset (\<lambda>v. projr (gob_Decode G v))
                        (mset (map (\<lambda>x. projr (gob_Encode G x)) ss))"
      using ms le by (simp only:)
    also have "\<dots> = image_mset (\<lambda>s. projr (gob_Decode G (projr (gob_Encode G s)))) (mset ss)"
      by (simp only: mset_map image_mset.compositionality comp_def)
    also have "\<dots> = image_mset (\<lambda>s. s) (mset ss)"
      by (rule image_mset_cong) (use codec in force)
    finally show ?thesis
      by simp
  qed
  have ord: "out = ss" if le: "int (length ss) \<le> maxSize b0 \<and> length ss \<le> 256"
  proof -
    have "out = map (\<lambda>v. projr (gob_Decode G v)) (map snd (db b'))"
      using decoded_map [OF rel] by (simp add: comp_def)
    also have "\<dots> = map (\<lambda>v. projr (gob_Decode G v)) (map (\<lambda>x. projr (gob_Encode G x)) ss)"
      using ap le by (simp only:)
    also have "\<dots> = map (\<lambda>s. s) ss"
      unfolding map_map comp_def by (rule map_cong) (use codec in force)+
    finally show ?thesis
      by simp
  qed
  show ?thesis
    using run n' c' srt keys' size out rel all es ord
    by (simp add: GetSamples_def)
qed

text \<open>
  Claim C6. From a new buffer of capacity \<open>C > 0\<close> on a store that did not exist, after
  \<open>AddSample\<close> of each of \<open>N\<close> samples (that the codec round-trips), \<open>GetSamples\<close> returns
  exactly \<open>min N C\<close> samples; when \<open>N \<le> C\<close> they are the inserted samples, each as often as
  it was inserted; and after every prefix of the calls at most \<open>C\<close> slots are occupied.
\<close>

theorem reservoir_size_and_retention:
  assumes fresh: "d p = None" "NewReservoirBuffer d p os C = Inr b0"
    and cap: "0 < C"
    and len: "int (length ss) < 2 ^ 63"
    and codec: "\<forall>s \<in> set ss. \<exists>v. gob_Encode G s = Inr v \<and> gob_Decode G v = Inr s"
  shows "(\<exists>r' b' out. addSamples G ss (r, b0) = Inr (r', b') \<and> GetSamples G b' = Inr out \<and>
            int (length out) = min (int (length ss)) C \<and>
            (int (length ss) \<le> C \<longrightarrow> mset out = mset ss))
       \<and> (\<forall>j \<le> length ss. \<exists>r' b'. addSamples G (take j ss) (r, b0) = Inr (r', b') \<and>
            int (length (db b')) \<le> C)"
proof -
  have b0: "n b0 = 0" "db b0 = []" "maxSize b0 = C"
    using fresh_buffer [OF fresh] by simp_all
  from reservoir_after [OF b0(1,2) len codec, of r]
  obtain r' b' out where run: "addSamples G ss (r, b0) = Inr (r', b')"
    and size: "length (db b') = nat (min (int (length ss)) (maxSize b0))"
    and out: "GetSamples G b' = Inr out"
    and rel: "list_all2 (\<lambda>e s. gob_Decode G (snd e) = Inr s) (db b') out"
    and all: "int (length ss) \<le> maxSize b0 \<longrightarrow> mset out = mset ss"
    by blast
  have "length out = length (db b')"
    using rel by (simp add: list_all2_lengthD)
  then have "int (length out) = min (int (length ss)) C"
    using size cap b0 by simp
  with run out all b0 have first:
    "\<exists>r' b' out. addSamples G ss (r, b0) = Inr (r', b') \<and> GetSamples G b' = Inr out \<and>
            int (length out) = min (int (length ss)) C \<and>
            (int (length ss) \<le> C \<longrightarrow> mset out = mset ss)"
    by auto
  have "\<exists>r' b'. addSamples G (take j ss) (r, b0) = Inr (r', b') \<and> int (length (db b')) \<le> C"
    if "j \<le> length ss" for j
  proof -
    have l: "int (length (take j ss)) < 2 ^ 63"
      using len by simp
    have c: "\<forall>s \<in> set (take j ss). \<exists>v. gob_Encode G s = Inr v \<and> gob_Decode G v = Inr s"
      using codec by (meson in_set_takeD)
    from reservoir_after [OF b0(1,2) l c, of r]
    obtain r' b' where "addSamples G (take j ss) (r, b0) = Inr (r', b')"
      and "length (db b') = nat (min (int (length (take j ss))) (maxSize b0))"
      by blast
    then show ?thesis
      using cap b0 by auto
  qed
  with first show ?thesis
    by blast
qed

theorem reservoir_size_and_retention_witness:
  "addSamples rawGob [[7], [8], [9]] (\<lambda>i. 0, emptyBuffer 2) =
     Inr (\<lambda>i. 0,
          \<lparr>path = ''samples.db'', opts = None, maxSize = 2, n = 3, db = [([0], [9]), ([1], [8])],
           accesses = [MxLock, WriteN 1, DbPut [0], MxUnlock,
                       MxLock, WriteN 2, DbPut [1], MxUnlock,
                       MxLock, WriteN 3, ReadRand 0, DbPut [0], MxUnlock]\<rparr>) \<and>
   GetSamples rawGob
     \<lparr>path = ''samples.db'', opts = None, maxSize = 2, n = 3, db = [([0], [9]), ([1], [8])],
      accesses = [MxLock, WriteN 1, DbPut [0], MxUnlock,
                  MxLock, WriteN 2, DbPut [1], MxUnlock,
                  MxLock, WriteN 3, ReadRand 0, DbPut [0], MxUnlock]\<rparr> = Inr [[9], [8]] \<and>
   int (length [[9::nat], [8]]) = min (int (length [[7::nat], [8], [9]])) 2"
proof -
  have fresh: "Map.empty ''samples.db'' = None"
    "NewReservoirBuffer Map.empty ''samples.db'' None 2 = Inr (emptyBuffer 2)"
    by (simp_all add: NewReservoirBuffer_def OpenFile_def emptyBuffer_def)
  have pos: "(0::int) < 2" by simp
  have len: "int (length [[7::nat], [8], [9]]) < 2 ^ 63" by simp
  have codec: "\<forall>s \<in> set [[7::nat], [8], [9]].
      \<exists>v. gob_Encode rawGob s = Inr v \<and> gob_Decode rawGob v = Inr s"
    by (simp add: rawGob_def)
  note T = reservoir_size_and_retention [OF fresh pos len codec, of "\<lambda>i. 0"]
  have run: "addSamples rawGob [[7], [8], [9]] (\<lambda>i. 0, emptyBuffer 2) =
     Inr (\<lambda>i. 0,
          \<lparr>path = ''samples.db'', opts = None, maxSize = 2, n = 3, db = [([0], [9]), ([1], [8])],
           accesses = [MxLock, WriteN 1, DbPut [0], MxUnlock,
                       MxLock, WriteN 2, DbPut [1], MxUnlock,
                       MxLock, WriteN 3, ReadRand 0, DbPut [0], MxUnlock]\<rparr>)"
    by (simp add: AddSample_def emptyBuffer_def rawGob_def mx_Lock_def mx_Unlock_def putSample_def
          int64_def uint64_def rand_Intn_def rand_draw_def PutUvarint.simps Let_def)
  from T run show ?thesis
    by (auto simp: GetSamples_def rawGob_def)
qed

lemma slot_keys_sorted_256:
  assumes "M \<le> 256"
  shows "sorted_wrt (<) (map PutUvarint [0..<M])"
  unfolding sorted_wrt_iff_nth_less using assms by (auto intro!: PutUvarint_mono_256)

text \<open>
  Claim C7, as amended. \<open>GetSamples\<close> returns the decoded values of the stored entries in
  the order of the scan, which is the ascending bytewise order of the slot keys; the
  occupied slots are \<open>0 .. min N C - 1\<close>. While at most 256 slots are occupied this is the
  order of the slot indices, and then a buffer that is not yet full returns the samples in
  the order of insertion.
\<close>

theorem GetSamples_key_order:
  assumes fresh: "d p = None" "NewReservoirBuffer d p os C = Inr b0"
    and len: "int (length ss) < 2 ^ 63"
    and codec: "\<forall>s \<in> set ss. \<exists>v. gob_Encode G s = Inr v \<and> gob_Decode G v = Inr s"
  shows "\<exists>r' b' out. addSamples G ss (r, b0) = Inr (r', b') \<and> GetSamples G b' = Inr out \<and>
           list_all2 (\<lambda>e s. gob_Decode G (snd e) = Inr s) (db b') out \<and>
           sorted_wrt (<) (map fst (db b')) \<and>
           set (map fst (db b')) = PutUvarint ` {0..<nat (min (int (length ss)) C)} \<and>
           (min (int (length ss)) C \<le> 256 \<longrightarrow>
              map fst (db b') = map PutUvarint [0..<nat (min (int (length ss)) C)]) \<and>
           (int (length ss) \<le> C \<and> length ss \<le> 256 \<longrightarrow> out = ss)"
proof -
  have b0: "n b0 = 0" "db b0 = []" "maxSize b0 = C"
    using fresh_buffer [OF fresh] by simp_all
  let ?M = "nat (min (int (length ss)) C)"
  from reservoir_after [OF b0(1,2) len codec, of r]
  obtain r' b' out where run: "addSamples G ss (r, b0) = Inr (r', b')"
    and srt: "sorted_wrt (<) (map fst (db b'))"
    and keys: "fst ` set (db b') = PutUvarint ` {0..<nat (min (int (length ss)) (maxSize b0))}"
    and out: "GetSamples G b' = Inr out"
    and rel: "list_all2 (\<lambda>e s. gob_Decode G (snd e) = Inr s) (db b') out"
    and ord: "int (length ss) \<le> maxSize b0 \<and> length ss \<le> 256 \<longrightarrow> out = ss"
    by blast
  have keys': "set (map fst (db b')) = PutUvarint ` {0..<?M}"
    using keys b0 by simp
  have slot: "map fst (db b') = map PutUvarint [0..<?M]" if "min (int (length ss)) C \<le> 256"
  proof (rule sorted_distinct_set_unique)
    show "sorted (map fst (db b'))" "distinct (map fst (db b'))"
      using srt by (simp_all add: strict_sorted_iff)
    have "?M \<le> 256"
      using that by simp
    then have "sorted_wrt (<) (map PutUvarint [0..<?M])"
      by (rule slot_keys_sorted_256)
    then show "sorted (map PutUvarint [0..<?M])" "distinct (map PutUvarint [0..<?M])"
      by (simp_all only: strict_sorted_iff)
    show "set (map fst (db b')) = set (map PutUvarint [0..<?M])"
      using keys' by simp
  qed
  show ?thesis
    using run out rel srt keys' slot ord b0 by blast
qed

theorem GetSamples_key_order_witness:
  "addSamples rawGob [[7], [8], [9]] (\<lambda>i. 0, emptyBuffer 5) =
     Inr (\<lambda>i. 0,
          \<lparr>path = ''samples.db'', opts = None, maxSize = 5, n = 3,
           db = [([0], [7]), ([1], [8]), ([2], [9])],
           accesses = [MxLock, WriteN 1, DbPut [0], MxUnlock,
                       MxLock, WriteN 2, DbPut [1], MxUnlock,
                       MxLock, WriteN 3, DbPut [2], MxUnlock]\<rparr>) \<and>
   GetSamples rawGob
     \<lparr>path = ''samples.db'', opts = None, maxSize = 5, n = 3,
      db = [([0], [7]), ([1], [8]), ([2], [9])],
      accesses = [MxLock, WriteN 1, DbPut [0], MxUnlock,
                  MxLock, WriteN 2, DbPut [1], MxUnlock,
                  MxLock, WriteN 3, DbPut [2], MxUnlock]\<rparr> = Inr [[7], [8], [9]]"
proof -
  have fresh: "Map.empty ''samples.db'' = None"
    "NewReservoirBuffer Map.empty ''samples.db'' None 5 = Inr (emptyBuffer 5)"
    by (simp_all add: NewReservoirBuffer_def OpenFile_def emptyBuffer_def)
  have len: "int (length [[7::nat], [8], [9]]) < 2 ^ 63" by simp
  have codec: "\<forall>s \<in> set [[7::nat], [8], [9]].
      \<exists>v. gob_Encode rawGob s = Inr v \<and> gob_Decode rawGob v = Inr s"
    by (simp add: rawGob_def)
  note T = GetSamples_key_order [OF fresh len codec, of "\<lambda>i. 0"]
  have run: "addSamples rawGob [[7], [8], [9]] (\<lambda>i. 0, emptyBuffer 5) =
     Inr (\<lambda>i. 0,
          \<lparr>path = ''samples.db'', opts = None, maxSize = 5, n = 3,
           db = [([0], [7]), ([1], [8]), ([2], [9])],
           accesses = [MxLock, WriteN 1, DbPut [0], MxUnlock,
                       MxLock, WriteN 2, DbPut [1], MxUnlock,
                       MxLock, WriteN 3, DbPut [2], MxUnlock]\<rparr>)"
    by (simp add: AddSample_def emptyBuffer_def rawGob_def mx_Lock_def mx_Unlock_def putSample_def
          int64_def uint64_def rand_Intn_def rand_draw_def PutUvarint.simps Let_def)
  from T run show ?thesis
    by auto
qed

text \<open>
  Claim C7 as stated fails. With 257 samples in a buffer of capacity 257, sample \<open>i\<close> sits in
  slot \<open>i\<close>, so slot-index order would return the samples as inserted; but the key of slot
  256 is \<open>80 02\<close> and sorts before the key \<open>81 01\<close> of slot 129, and the scan returns all
  samples in another order.
\<close>

theorem GetSamples_slot_order_counterexample:
  "(case scan257 of
      Inl err \<Rightarrow> False
    | Inr out \<Rightarrow> mset out = mset samples257 \<and> out \<noteq> samples257)"
proof -
  let ?b0 = "emptyBuffer 257"
  have b0: "n ?b0 = 0" "db ?b0 = []" "maxSize ?b0 = 257"
    by (simp_all add: emptyBuffer_def)
  have len: "int (length samples257) < 2 ^ 63" "length samples257 = 257"
    by (simp_all add: samples257_def)
  have codec: "\<forall>s \<in> set samples257. \<exists>v. gob_Encode rawGob s = Inr v \<and> gob_Decode rawGob v = Inr s"
    by (simp add: rawGob_def)
  from reservoir_after [OF b0(1,2) len(1) codec, of "\<lambda>i. 0"]
  obtain r' b' out where run: "addSamples rawGob samples257 (\<lambda>i. 0, ?b0) = Inr (r', b')"
    and srt: "sorted_wrt (<) (map fst (db b'))"
    and out: "GetSamples rawGob b' = Inr out"
    and rel: "list_all2 (\<lambda>e s. gob_Decode rawGob (snd e) = Inr s) (db b') out"
    and all: "int (length samples257) \<le> maxSize ?b0 \<longrightarrow> mset out = mset samples257"
    and es: "int (length samples257) \<le> maxSize ?b0 \<longrightarrow>
              (\<forall>e \<in> set (db b'). \<exists>i < length samples257.
                 e = (PutUvarint i, projr (gob_Encode rawGob (samples257 ! i))))"
    by blast
  have scan: "scan257 = Inr out"
    by (simp add: scan257_def run out)
  have ms: "mset out = mset samples257"
    using all b0 len by simp
  have same: "fst e = snd e" if "e \<in> set (db b')" for e
  proof -
    from es b0 len that obtain i where "i < 257"
      "e = (PutUvarint i, projr (gob_Encode rawGob (samples257 ! i)))"
      by auto
    then show ?thesis
      by (simp add: rawGob_def samples257_def)
  qed
  have "out = map (\<lambda>e. projr (gob_Decode rawGob (snd e))) (db b')"
    using rel by (rule decoded_map)
  also have "\<dots> = map snd (db b')"
    by (simp add: rawGob_def)
  also have "\<dots> = map fst (db b')"
    by (rule map_cong) (simp_all add: same)
  finally have sorted_out: "sorted_wrt (<) out"
    using srt by simp
  have "out \<noteq> samples257"
  proof
    assume "out = samples257"
    with sorted_out have "sorted_wrt (<) (map PutUvarint [0..<257])"
      by (simp add: samples257_def)
    then have "map PutUvarint [0..<257] ! 129 < map PutUvarint [0..<257] ! 256"
      unfolding sorted_wrt_iff_nth_less by simp
    then have "PutUvarint 129 < PutUvarint 256"
      by (simp only: nth_map nth_upt length_upt) simp
    then show False
      by (simp add: PutUvarint.simps)
  qed
  with ms show ?thesis
    unfolding scan by simp
qed

lemma GobEncode_Inr:
  "GobEncode R b = Inr buf \<longleftrightarrow>
     (\<exists>os. opts b = Some os \<and> R os \<and>
        buf = [GobString (path b), GobOptions os, GobInt (maxSize b), GobInt (n b)])"
  by (auto simp: GobEncode_def enc_Options_def enc_Encode_def split: option.splits)

lemma decodeInto_None:
  "decodeInto os None = os"
  by (cases os) (simp add: decodeInto_def zeroOptions_def Let_def)

lemma decodeInto_Some:
  "decodeInto os (Some c) =
     \<lparr>ErrorIfMissing = ErrorIfMissing os \<or> ErrorIfMissing c,
      ErrorIfExist = ErrorIfExist os \<or> ErrorIfExist c,
      otherOptions = otherOptions c ++ otherOptions os\<rparr>"
  by (simp add: decodeInto_def Let_def)

lemma GobDecode_Inr:
  "GobDecode R d x b0 = Inr b' \<longleftrightarrow>
     (\<exists>p os cap cnt rest st.
        x = GobString p # GobOptions os # GobInt cap # GobInt cnt # rest \<and> R os \<and>
        - (2 ^ 63) \<le> cap \<and> cap < 2 ^ 63 \<and> - (2 ^ 63) \<le> cnt \<and> cnt < 2 ^ 63 \<and>
        d p = Some st \<and> \<not> locked st \<and> \<not> ErrorIfExist (decodeInto os (opts b0)) \<and>
        b' = b0\<lparr>path := p, opts := Some ((decodeInto os (opts b0))\<lparr>ErrorIfMissing := True\<rparr>),
                 maxSize := cap, n := cnt, db := entries st\<rparr>)"
  by (auto simp: GobDecode_def dec_String_def dec_Options_def dec_Int_def OpenFile_def Let_def
        split: list.splits gobval.splits sum.splits option.splits if_splits)

text \<open>
  Claim C8, as amended. Take the metadata that \<open>GobEncode\<close> wrote for a buffer \<open>b\<close> and decode
  it into any receiver \<open>b0\<close>, under any registry \<open>R'\<close> and any disk. The outcome is fixed: a
  decode error if the registry does not cover the options in the stream; \<open>ErrNotExist\<close> if
  there is no store at the saved path, never a fresh empty store; \<open>ErrLocked\<close> if the store
  is held; \<open>ErrExist\<close> if \<open>ErrorIfExist\<close> is set in the stream or in the options the receiver
  already holds; and otherwise the receiver with the path, the capacity and the count \<open>n\<close>
  exactly as saved, the store's entries, and as options the saved ones decoded through
  the receiver's own, with \<open>ErrorIfMissing\<close> set. For a receiver that holds no options
  these are the saved options themselves; for one that holds options, a flag is on if it
  is on in either, and every other field that is at its zero value in the stream keeps
  the receiver's value. Whatever the stream, \<open>GobDecode\<close> succeeds only
  when all four values decode and the store exists and is free, and then \<open>n\<close> is the
  decoded count; every other outcome is an error.
\<close>

theorem GobDecode_resumes:
  assumes enc: "GobEncode R b = Inr buf"
    and rng: "- (2 ^ 63) \<le> maxSize b" "maxSize b < 2 ^ 63" "- (2 ^ 63) \<le> n b" "n b < 2 ^ 63"
  shows "\<exists>os. opts b = Some os \<and>
           GobDecode R' d buf b0 =
             (if \<not> R' os then Inl GobDecodeError
              else case d (path b) of
                     None \<Rightarrow> Inl ErrNotExist
                   | Some st \<Rightarrow>
                       if locked st then Inl ErrLocked
                       else if ErrorIfExist (decodeInto os (opts b0)) then Inl ErrExist
                       else Inr (b0\<lparr>path := path b,
                                    opts := Some ((decodeInto os (opts b0))
                                                    \<lparr>ErrorIfMissing := True\<rparr>),
                                    maxSize := maxSize b, n := n b, db := entries st\<rparr>))
         \<and> (opts b0 = None \<longrightarrow> decodeInto os (opts b0) = os)
         \<and> (\<forall>c. opts b0 = Some c \<longrightarrow>
               decodeInto os (opts b0) =
                 \<lparr>ErrorIfMissing = ErrorIfMissing os \<or> ErrorIfMissing c,
                  ErrorIfExist = ErrorIfExist os \<or> ErrorIfExist c,
                  otherOptions = otherOptions c ++ otherOptions os\<rparr>)
         \<and> (\<forall>x b'. GobDecode R' d x b0 = Inr b' \<longrightarrow>
               (\<exists>p os' cap cnt rest st.
                  x = GobString p # GobOptions os' # GobInt cap # GobInt cnt # rest \<and>
                  d p = Some st \<and> \<not> locked st \<and> db b' = entries st \<and>
                  path b' = p \<and> maxSize b' = cap \<and> n b' = cnt \<and>
                  opts b' = Some ((decodeInto os' (opts b0))\<lparr>ErrorIfMissing := True\<rparr>)))"
proof -
  from enc obtain os where os: "opts b = Some os"
    and buf: "buf = [GobString (path b), GobOptions os, GobInt (maxSize b), GobInt (n b)]"
    by (auto simp: GobEncode_Inr)
  have main: "GobDecode R' d buf b0 =
          (if \<not> R' os then Inl GobDecodeError
           else case d (path b) of
                  None \<Rightarrow> Inl ErrNotExist
                | Some st \<Rightarrow>
                    if locked st then Inl ErrLocked
                    else if ErrorIfExist (decodeInto os (opts b0)) then Inl ErrExist
                    else Inr (b0\<lparr>path := path b,
                                 opts := Some ((decodeInto os (opts b0))
                                                 \<lparr>ErrorIfMissing := True\<rparr>),
                                 maxSize := maxSize b, n := n b, db := entries st\<rparr>))"
    using rng
    by (simp add: buf GobDecode_def dec_String_def dec_Options_def dec_Int_def OpenFile_def
          Let_def split: option.splits)
  have fresh: "opts b0 = None \<longrightarrow> decodeInto os (opts b0) = os"
    by (simp add: decodeInto_None)
  have held: "\<forall>c. opts b0 = Some c \<longrightarrow>
               decodeInto os (opts b0) =
                 \<lparr>ErrorIfMissing = ErrorIfMissing os \<or> ErrorIfMissing c,
                  ErrorIfExist = ErrorIfExist os \<or> ErrorIfExist c,
                  otherOptions = otherOptions c ++ otherOptions os\<rparr>"
    by (simp add: decodeInto_Some)
  have only: "\<forall>x b'. GobDecode R' d x b0 = Inr b' \<longrightarrow>
               (\<exists>p os' cap cnt rest st.
                  x = GobString p # GobOptions os' # GobInt cap # GobInt cnt # rest \<and>
                  d p = Some st \<and> \<not> locked st \<and> db b' = entries st \<and>
                  path b' = p \<and> maxSize b' = cap \<and> n b' = cnt \<and>
                  opts b' = Some ((decodeInto os' (opts b0))\<lparr>ErrorIfMissing := True\<rparr>))"
    by (auto simp: GobDecode_Inr)
  show ?thesis
    by (rule exI [of _ os]) (intro conjI os main fresh held only)
qed

theorem GobDecode_resumes_witness:
  "GobEncode allRegistered savedBuffer =
     Inr [GobString ''samples.db'',
          GobOptions \<lparr>ErrorIfMissing = False, ErrorIfExist = False, otherOptions = Map.empty\<rparr>,
          GobInt 2, GobInt 5] \<and>
   GobDecode allRegistered savedDisk
     [GobString ''samples.db'',
      GobOptions \<lparr>ErrorIfMissing = False, ErrorIfExist = False, otherOptions = Map.empty\<rparr>,
      GobInt 2, GobInt 5] zeroBuffer =
     Inr \<lparr>path = ''samples.db'',
          opts = Some \<lparr>ErrorIfMissing = True, ErrorIfExist = False, otherOptions = Map.empty\<rparr>,
          maxSize = 2, n = 5, db = [([0], [7]), ([1], [8])], accesses = []\<rparr> \<and>
   GobDecode allRegistered savedDisk
     [GobString ''samples.db'',
      GobOptions \<lparr>ErrorIfMissing = False, ErrorIfExist = False, otherOptions = Map.empty\<rparr>,
      GobInt 2, GobInt 5] tunedBuffer =
     Inr \<lparr>path = ''samples.db'',
          opts = Some \<lparr>ErrorIfMissing = True, ErrorIfExist = False,
                      otherOptions = [''NoSync'' \<mapsto> ''true'']\<rparr>,
          maxSize = 2, n = 5, db = [([0], [7]), ([1], [8])], accesses = []\<rparr> \<and>
   GobDecode allRegistered savedDisk
     [GobString ''samples.db'',
      GobOptions \<lparr>ErrorIfMissing = False, ErrorIfExist = False, otherOptions = Map.empty\<rparr>,
      GobInt 2, GobInt 5] exclusiveBuffer = Inl ErrExist \<and>
   GobDecode allRegistered heldDisk
     [GobString ''samples.db'',
      GobOptions \<lparr>ErrorIfMissing = False, ErrorIfExist = False, otherOptions = Map.empty\<rparr>,
      GobInt 2, GobInt 5] zeroBuffer = Inl ErrLocked \<and>
   GobDecode allRegistered Map.empty
     [GobString ''samples.db'',
      GobOptions \<lparr>ErrorIfMissing = False, ErrorIfExist = False, otherOptions = Map.empty\<rparr>,
      GobInt 2, GobInt 5] zeroBuffer = Inl ErrNotExist"
proof -
  have enc: "GobEncode allRegistered savedBuffer =
     Inr [GobString ''samples.db'',
          GobOptions \<lparr>ErrorIfMissing = False, ErrorIfExist = False, otherOptions = Map.empty\<rparr>,
          GobInt 2, GobInt 5]"
    by (simp add: GobEncode_def enc_Options_def enc_Encode_def savedBuffer_def allRegistered_def)
  have r: "- (2 ^ 63) \<le> maxSize savedBuffer" "maxSize savedBuffer < 2 ^ 63"
    "- (2 ^ 63) \<le> n savedBuffer" "n savedBuffer < 2 ^ 63"
    by (simp_all add: savedBuffer_def)
  show ?thesis
    using GobDecode_resumes [OF enc r, of allRegistered savedDisk zeroBuffer]
      GobDecode_resumes [OF enc r, of allRegistered savedDisk tunedBuffer]
      GobDecode_resumes [OF enc r, of allRegistered savedDisk exclusiveBuffer]
      GobDecode_resumes [OF enc r, of allRegistered heldDisk zeroBuffer]
      GobDecode_resumes [OF enc r, of allRegistered Map.empty zeroBuffer] enc
    by (simp add: savedBuffer_def savedDisk_def heldDisk_def zeroBuffer_def tunedBuffer_def
          exclusiveBuffer_def allRegistered_def decodeInto_def zeroOptions_def)
qed

text \<open>
  Claim C8 as stated fails: the options of a buffer saved with \<open>ErrorIfMissing\<close> off come
  back with the flag on (line 366), not exactly as serialized, even in a receiver that
  held no options before.
\<close>

theorem GobDecode_opts_counterexample:
  "GobEncode allRegistered savedBuffer =
     Inr [GobString ''samples.db'',
          GobOptions \<lparr>ErrorIfMissing = False, ErrorIfExist = False, otherOptions = Map.empty\<rparr>,
          GobInt 2, GobInt 5] \<and>
   (case GobDecode allRegistered savedDisk
      [GobString ''samples.db'',
       GobOptions \<lparr>ErrorIfMissing = False, ErrorIfExist = False, otherOptions = Map.empty\<rparr>,
       GobInt 2, GobInt 5] zeroBuffer of
      Inl err \<Rightarrow> False
    | Inr b' \<Rightarrow> opts b' \<noteq> opts savedBuffer)"
  by (simp add: GobEncode_def enc_Options_def enc_Encode_def savedBuffer_def GobDecode_def
        dec_String_def dec_Options_def dec_Int_def OpenFile_def savedDisk_def zeroBuffer_def
        allRegistered_def decodeInto_def zeroOptions_def Let_def)

section \<open>Properties of the policy table\<close>

lemma NumActions_New: "NumActions (policy_New A len) = len"
  by (simp add: NumActions_def policy_New_def)

text \<open>
  Claim C3. \<open>GetPolicy\<close> on a node whose key is absent creates a Policy of
  \<open>NumChildren\<close> actions, stores it under the key and marks it; on a key whose stored
  Policy has another action count it panics; and after a successful call for a node, a
  call for any node of the same key with a different child count panics. A successful
  call leaves under the key a Policy with the node's number of actions and replaces no
  stored Policy, so the panic does not depend on the two calls being next to each other.
\<close>

theorem GetPolicy_action_count:
  fixes pt :: "('f, 'dp) PolicyTable" and node :: "'u GameTreeNode" and A :: "('f, 'u) f32ops"
  defines "key \<equiv> InfoSetKey node (Player node)"
  shows "(policiesByKey pt key = None \<longrightarrow>
            GetPolicy A node pt =
              Inr ((key, policy_New A (NumChildren node)),
                   pt\<lparr>policiesByKey := (policiesByKey pt)(key \<mapsto> policy_New A (NumChildren node)),
                      mayNeedUpdate := insert key (mayNeedUpdate pt)\<rparr>))
       \<and> (\<forall>found. policiesByKey pt key = Some found \<and> NumActions found \<noteq> NumChildren node \<longrightarrow>
            GetPolicy A node pt = Inl (ActionCountPanic (NumActions found) (NumChildren node)))
       \<and> (\<forall>res pt1 node2.
            GetPolicy A node pt = Inr (res, pt1) \<and>
            InfoSetKey node2 (Player node2) = key \<and> NumChildren node2 \<noteq> NumChildren node \<longrightarrow>
            GetPolicy A node2 pt1 =
              Inl (ActionCountPanic (NumChildren node) (NumChildren node2)))
       \<and> (\<forall>res pt1. GetPolicy A node pt = Inr (res, pt1) \<longrightarrow>
            (\<exists>p. policiesByKey pt1 key = Some p \<and> NumActions p = NumChildren node) \<and>
            (\<forall>key' p. policiesByKey pt key' = Some p \<longrightarrow> policiesByKey pt1 key' = Some p))"
  unfolding key_def
  by (auto simp: GetPolicy_def Let_def NumActions_New split: option.splits if_splits)

theorem GetPolicy_action_count_witness:
  "GetPolicy exactOps twoChildren (NewPolicyTable () :: (rat, unit) PolicyTable) =
     Inr ((''root'', policy_New exactOps 2),
          (NewPolicyTable ())\<lparr>policiesByKey := [''root'' \<mapsto> policy_New exactOps 2],
                               mayNeedUpdate := {''root''}\<rparr>) \<and>
   GetPolicy exactOps oneChild
     ((NewPolicyTable () :: (rat, unit) PolicyTable)
        \<lparr>policiesByKey := [''root'' \<mapsto> policy_New exactOps 2], mayNeedUpdate := {''root''}\<rparr>) =
     Inl (ActionCountPanic 2 1)"
proof -
  let ?pt = "NewPolicyTable () :: (rat, unit) PolicyTable"
  let ?pt1 = "?pt\<lparr>policiesByKey := [''root'' \<mapsto> policy_New exactOps 2],
                    mayNeedUpdate := {''root''}\<rparr>"
  have key: "InfoSetKey twoChildren (Player twoChildren) = ''root''"
    "InfoSetKey oneChild (Player oneChild) = ''root''"
    by (simp_all add: twoChildren_def oneChild_def)
  have nc: "NumChildren twoChildren = 2" "NumChildren oneChild = 1"
    by (simp_all add: twoChildren_def oneChild_def NumChildren_def)
  have absent: "policiesByKey ?pt ''root'' = None"
    by (simp add: NewPolicyTable_def)
  note T = GetPolicy_action_count [of ?pt twoChildren exactOps]
  from T absent have first:
    "GetPolicy exactOps twoChildren ?pt = Inr ((''root'', policy_New exactOps 2), ?pt1)"
    by (simp add: key nc) (simp add: NewPolicyTable_def)
  have "GetPolicy exactOps oneChild ?pt1 =
          Inl (ActionCountPanic (NumChildren twoChildren) (NumChildren oneChild))"
    by (rule T [THEN conjunct2, THEN conjunct2, THEN conjunct1, rule_format,
          of "(''root'', policy_New exactOps 2)" ?pt1 oneChild])
       (simp add: first key nc)
  with first show ?thesis
    by (simp add: nc)
qed

section \<open>Properties of the robust sampling engine\<close>

lemma size_child:
  "i < length (Children node) \<Longrightarrow> size (Children node ! i) < size node"
proof (cases node)
  case (GameTreeNode t ident pl ks us cs)
  assume "i < length (Children node)"
  then have "cs ! i \<in> set cs"
    using GameTreeNode by simp
  then have "size (cs ! i) \<le> size_list size cs"
    by (rule size_list_estimation') simp
  then show ?thesis
    using GameTreeNode by simp
qed

lemma SampleChild_size:
  "SampleChild node r = Inr (child, r') \<Longrightarrow> size child < size node"
  by (auto simp: SampleChild_def rand_Intn_def rand_draw_def NumChildren_def
           split: if_splits intro!: size_child)

lemma swap_mset: "i < length xs \<Longrightarrow> j < length xs \<Longrightarrow> mset (swap i j xs) = mset xs"
  unfolding swap_def by (rule mset_swap)

lemma shuffle_from_mset:
  "i < length xs \<Longrightarrow> mset (fst (shuffle_from i xs r)) = mset xs"
proof (induction i arbitrary: xs r)
  case 0
  then show ?case by simp
next
  case (Suc i)
  let ?j = "r 0 mod Suc (Suc i)"
  have j: "?j < length xs"
    using Suc.prems by (meson Suc_leI le_trans less_le_trans mod_less_divisor zero_less_Suc linorder_not_less)
  have len: "length (swap (Suc i) ?j xs) = length xs"
    by (simp add: swap_def)
  have "mset (fst (shuffle_from i (swap (Suc i) ?j xs) (\<lambda>i. r (Suc i)))) = mset (swap (Suc i) ?j xs)"
    by (rule Suc.IH) (use Suc.prems len in simp)
  then show ?case
    using swap_mset [OF Suc.prems j] by (simp add: rand_draw_def)
qed

lemma rand_Shuffle_mset: "mset (fst (rand_Shuffle xs r)) = mset xs"
proof (cases xs)
  case Nil
  then show ?thesis by (simp add: rand_Shuffle_def)
next
  case (Cons x rest)
  then show ?thesis
    unfolding rand_Shuffle_def by (intro shuffle_from_mset) simp
qed

lemma sampleActions_Inr:
  assumes "sampleActions k len r = Inr (selected, r')"
  shows "0 \<le> k \<and> length selected = min (nat k) len \<and> distinct selected \<and>
         set selected \<subseteq> {0..<len}"
proof (cases "k < int len")
  case True
  obtain shuffled r1 where sh: "rand_Shuffle (arange len) r = (shuffled, r1)"
    by (cases "rand_Shuffle (arange len) r")
  have ms: "mset shuffled = mset [0..<len]"
    using rand_Shuffle_mset [of "arange len" r] sh by (simp add: arange_def)
  then have d: "distinct shuffled" and s: "set shuffled = {0..<len}" and l: "length shuffled = len"
    using mset_eq_imp_distinct_iff [OF ms] mset_eq_setD [OF ms] mset_eq_length [OF ms] by simp_all
  from assms True sh have k: "0 \<le> k" and sel: "selected = take (nat k) shuffled"
    by (auto simp: sampleActions_def Let_def arange_def split: if_splits)
  show ?thesis
    unfolding sel using k d s l True set_take_subset [of "nat k" shuffled] by auto
next
  case False
  with assms have "selected = [0..<len]"
    by (simp add: sampleActions_def Let_def arange_def)
  with False show ?thesis
    by auto
qed

lemma evalChildren_length:
  "evalChildren A k node player sp tp sel utils s s' \<Longrightarrow> length utils = length sel"
  by (induction rule: evalChildren.induct) simp_all

lemma sampledLoop_spec:
  "sampledLoop A k node strategy player sp tp sel regs cf sa w = Inr ((regs', cf'), sa', w') \<Longrightarrow>
   \<exists>utils. evalChildren A k node player sp tp sel utils (sa, w) (sa', w') \<and>
     regs' = scatter sel utils regs \<and> cf' = weighted A strategy sel utils cf"
proof (induction sel arbitrary: regs cf sa w)
  case Nil
  then show ?case
    by (auto simp: sampledLoop.simps scatter_def weighted_def intro: evalNone)
next
  case (Cons i rest)
  from Cons.prems have i: "i < length (Children node)"
    by (auto simp: sampledLoop.simps split: if_splits)
  from Cons.prems i obtain util sa1 w1 where
    call: "runHelper A k (Children node ! i) player sp tp sa w = Inr (util, sa1, w1)"
    and rest: "sampledLoop A k node strategy player sp tp rest (regs[i := util])
                 (f32_add A cf (f32_mul A (strategy ! i) util)) sa1 w1 = Inr ((regs', cf'), sa', w')"
    by (auto simp: sampledLoop.simps Let_def split: if_splits sum.splits)
  from Cons.IH [OF rest] obtain utils where
    ev: "evalChildren A k node player sp tp rest utils (sa1, w1) (sa', w')"
    and r: "regs' = scatter rest utils (regs[i := util])"
    and c: "cf' = weighted A strategy rest utils (f32_add A cf (f32_mul A (strategy ! i) util))"
    by blast
  have "evalChildren A k node player sp tp (i # rest) (util # utils) (sa, w) (sa', w')"
    using i call ev by (rule evalNext)
  moreover have "regs' = scatter (i # rest) (util # utils) regs"
    using r by (simp add: scatter_def)
  moreover have "cf' = weighted A strategy (i # rest) (util # utils) cf"
    using c by (simp add: weighted_def)
  ultimately show ?case
    by blast
qed

lemma scatter_length: "length (scatter sel utils regs) = length regs"
  unfolding scatter_def by (induction sel arbitrary: utils regs) (auto simp: zip_Cons1 split: list.splits)

lemma scatter_other:
  "j \<notin> set sel \<Longrightarrow> scatter sel utils regs ! j = regs ! j"
  unfolding scatter_def
  by (induction sel arbitrary: utils regs) (auto simp: zip_Cons1 split: list.splits)

lemma scatter_hit:
  "distinct sel \<Longrightarrow> length utils = length sel \<Longrightarrow> m < length sel \<Longrightarrow>
     sel ! m < length regs \<Longrightarrow> scatter sel utils regs ! (sel ! m) = utils ! m"
proof (induction sel arbitrary: utils regs m)
  case Nil
  then show ?case by simp
next
  case (Cons i rest)
  then obtain u us where utils: "utils = u # us"
    by (cases utils) auto
  have sc: "scatter (i # rest) (u # us) regs = scatter rest us (regs[i := u])"
    by (simp add: scatter_def)
  show ?case
  proof (cases m)
    case 0
    then show ?thesis
      using Cons.prems by (simp add: sc utils scatter_other)
  next
    case (Suc m')
    then show ?thesis
      using Cons.prems Cons.IH [of us m' "regs[i := u]"] by (simp add: sc utils)
  qed
qed

lemma pool_alloc_length: "pool_alloc A len pool = (buf, pool') \<Longrightarrow> length buf = len"
  by (auto simp: pool_alloc_def split: list.splits)

lemma handleTraversingPlayerNode_Inr:
  assumes "handleTraversingPlayerNode A k node sp tp sa w = Inr (cfValue, sa', w')"
  shows "\<exists>key pol pt1 selected r' buf pool' regrets1 w4.
     GetPolicy A node (profile w) = Inr ((key, pol), pt1) \<and>
     sampleActions k (NumChildren node) (rng w) = Inr (selected, r') \<and>
     pool_alloc A (NumChildren node) (slicePool w) = (buf, pool') \<and>
     sampledLoop A k node (GetStrategy pol) (Player node)
       (f32_mul A (f32_div A (f32_one A) (f32_of_int A (int (NumChildren node)))) sp) tp
       selected buf (f32_zero A) sa (w\<lparr>profile := pt1, rng := r', slicePool := pool'\<rparr>) =
       Inr ((regrets1, cfValue), sa', w4) \<and>
     w' = w4\<lparr>profile :=
               onPolicy key
                 (AddRegret A
                    (f32_div A (f32_one A)
                       (f32_div A (f32_one A) (f32_of_int A (int (NumChildren node)))))
                    (AddConst A (f32_neg A cfValue) regrets1))
                 (profile w4),
             slicePool := pool_free (AddConst A (f32_neg A cfValue) regrets1) (slicePool w4)\<rparr>"
  using assms
  by (auto simp: handleTraversingPlayerNode.simps Let_def split: sum.splits prod.splits)

text \<open>
  Claim C1, as amended. When \<open>handleTraversingPlayerNode\<close> returns, \<open>k\<close> is not negative and
  it has chosen \<open>min k numChildren\<close> distinct actions (all of them when \<open>k\<close> is not below
  their number, the first \<open>k\<close> of a shuffle otherwise); it has evaluated the chosen children
  in turn with the node's player as last player and the sampling probability
  \<open>q * sampleProb\<close>, \<open>q = 1 / numChildren\<close>; the value returned is \<open>cfValue\<close>, the sum of
  \<open>strategy[i] * util\<close> over the chosen actions; the vector passed to \<open>AddRegret\<close> with scale
  \<open>1 / q\<close> holds \<open>util - cfValue\<close> at each chosen action and, at every other action, what
  the scratch buffer held when it was allocated, minus \<open>cfValue\<close>; the buffer is then freed.
\<close>

theorem handleTraversingPlayerNode_regrets:
  fixes w :: "('f, ('f, 'dp) PolicyTable) world" and A :: "('f, 'u) f32ops"
  assumes ret: "handleTraversingPlayerNode A k node sp tp sa w = Inr (cfValue, sa', w')"
  shows "\<exists>key pol pt1 selected r' buf pool' utils w4 regrets.
     GetPolicy A node (profile w) = Inr ((key, pol), pt1) \<and>
     sampleActions k (NumChildren node) (rng w) = Inr (selected, r') \<and>
     0 \<le> k \<and> length selected = min (nat k) (NumChildren node) \<and> distinct selected \<and>
     set selected \<subseteq> {0..<NumChildren node} \<and>
     pool_alloc A (NumChildren node) (slicePool w) = (buf, pool') \<and>
     length buf = NumChildren node \<and>
     evalChildren A k node (Player node)
       (f32_mul A (f32_div A (f32_one A) (f32_of_int A (int (NumChildren node)))) sp) tp
       selected utils (sa, w\<lparr>profile := pt1, rng := r', slicePool := pool'\<rparr>) (sa', w4) \<and>
     cfValue = weighted A (GetStrategy pol) selected utils (f32_zero A) \<and>
     length regrets = NumChildren node \<and>
     (\<forall>m < length selected.
        regrets ! (selected ! m) = f32_add A (utils ! m) (f32_neg A cfValue)) \<and>
     (\<forall>j < NumChildren node. j \<notin> set selected \<longrightarrow>
        regrets ! j = f32_add A (buf ! j) (f32_neg A cfValue)) \<and>
     w' = w4\<lparr>profile :=
               onPolicy key
                 (AddRegret A
                    (f32_div A (f32_one A)
                       (f32_div A (f32_one A) (f32_of_int A (int (NumChildren node)))))
                    regrets)
                 (profile w4),
             slicePool := pool_free regrets (slicePool w4)\<rparr>"
proof -
  let ?n = "NumChildren node"
  from handleTraversingPlayerNode_Inr [OF ret]
  obtain key pol pt1 selected r' buf pool' regrets1 w4 where
    gp: "GetPolicy A node (profile w) = Inr ((key, pol), pt1)"
    and sel: "sampleActions k ?n (rng w) = Inr (selected, r')"
    and al: "pool_alloc A ?n (slicePool w) = (buf, pool')"
    and loop: "sampledLoop A k node (GetStrategy pol) (Player node)
       (f32_mul A (f32_div A (f32_one A) (f32_of_int A (int ?n))) sp) tp
       selected buf (f32_zero A) sa (w\<lparr>profile := pt1, rng := r', slicePool := pool'\<rparr>) =
       Inr ((regrets1, cfValue), sa', w4)"
    and fin: "w' = w4\<lparr>profile :=
               onPolicy key
                 (AddRegret A
                    (f32_div A (f32_one A) (f32_div A (f32_one A) (f32_of_int A (int ?n))))
                    (AddConst A (f32_neg A cfValue) regrets1))
                 (profile w4),
             slicePool := pool_free (AddConst A (f32_neg A cfValue) regrets1) (slicePool w4)\<rparr>"
    by blast
  from sampleActions_Inr [OF sel]
  have k: "0 \<le> k" and ls: "length selected = min (nat k) ?n" and ds: "distinct selected"
    and ss: "set selected \<subseteq> {0..<?n}"
    by simp_all
  have lb: "length buf = ?n"
    using al by (rule pool_alloc_length)
  from sampledLoop_spec [OF loop] obtain utils where
    ev: "evalChildren A k node (Player node)
       (f32_mul A (f32_div A (f32_one A) (f32_of_int A (int ?n))) sp) tp
       selected utils (sa, w\<lparr>profile := pt1, rng := r', slicePool := pool'\<rparr>) (sa', w4)"
    and r1: "regrets1 = scatter selected utils buf"
    and cf: "cfValue = weighted A (GetStrategy pol) selected utils (f32_zero A)"
    by blast
  let ?regrets = "AddConst A (f32_neg A cfValue) regrets1"
  have lu: "length utils = length selected"
    using ev by (rule evalChildren_length)
  have l1: "length regrets1 = ?n"
    using r1 lb by (simp add: scatter_length)
  then have lr: "length ?regrets = ?n"
    by (simp add: AddConst_def)
  have hit: "?regrets ! (selected ! m) = f32_add A (utils ! m) (f32_neg A cfValue)"
    if "m < length selected" for m
  proof -
    have in_range: "selected ! m < ?n"
      using ss that by (meson atLeastLessThan_iff nth_mem subsetD)
    then have "regrets1 ! (selected ! m) = utils ! m"
      unfolding r1 using ds lu that lb by (intro scatter_hit) simp_all
    then show ?thesis
      using in_range l1 by (simp add: AddConst_def)
  qed
  have miss: "?regrets ! j = f32_add A (buf ! j) (f32_neg A cfValue)"
    if "j < ?n" "j \<notin> set selected" for j
  proof -
    have "regrets1 ! j = buf ! j"
      unfolding r1 using that by (simp add: scatter_other)
    then show ?thesis
      using that l1 by (simp add: AddConst_def)
  qed
  show ?thesis
    using gp sel k ls ds ss al lb ev cf lr hit miss fin by blast
qed

lemma run_twoChildren:
  "handleTraversingPlayerNode exactOps 1 twoChildren 1 0 Map.empty freshWorld =
     Inr (1, Map.empty, afterTwoChildren)"
  by (simp add: handleTraversingPlayerNode.simps sampledLoop.simps runHelper.simps
        twoChildren_def freshWorld_def exactOps_def NewPolicyTable_def GetPolicy_def policy_New_def
        NumChildren_def NumActions_def GetStrategy_def sampleActions_def arange_def
        rand_Shuffle_def rand_draw_def swap_def pool_alloc_def pool_free_def AddConst_def
        AddRegret_def onPolicy_def Let_def numeral_2_eq_2 afterTwoChildren_def)

theorem handleTraversingPlayerNode_regrets_witness:
  "\<exists>key pol pt1 selected r' buf pool' utils w4 regrets.
     GetPolicy exactOps twoChildren (profile freshWorld) = Inr ((key, pol), pt1) \<and>
     sampleActions 1 (NumChildren twoChildren) (rng freshWorld) = Inr (selected, r') \<and>
     (0::int) \<le> 1 \<and> length selected = min (nat 1) (NumChildren twoChildren) \<and>
     distinct selected \<and> set selected \<subseteq> {0..<NumChildren twoChildren} \<and>
     pool_alloc exactOps (NumChildren twoChildren) (slicePool freshWorld) = (buf, pool') \<and>
     length buf = NumChildren twoChildren \<and>
     evalChildren exactOps 1 twoChildren (Player twoChildren)
       (f32_mul exactOps
          (f32_div exactOps (f32_one exactOps)
             (f32_of_int exactOps (int (NumChildren twoChildren)))) 1) 0
       selected utils
       (Map.empty, freshWorld\<lparr>profile := pt1, rng := r', slicePool := pool'\<rparr>) (Map.empty, w4) \<and>
     1 = weighted exactOps (GetStrategy pol) selected utils (f32_zero exactOps) \<and>
     length regrets = NumChildren twoChildren \<and>
     (\<forall>m < length selected.
        regrets ! (selected ! m) = f32_add exactOps (utils ! m) (f32_neg exactOps 1)) \<and>
     (\<forall>j < NumChildren twoChildren. j \<notin> set selected \<longrightarrow>
        regrets ! j = f32_add exactOps (buf ! j) (f32_neg exactOps 1)) \<and>
     afterTwoChildren =
       w4\<lparr>profile :=
            onPolicy key
              (AddRegret exactOps
                 (f32_div exactOps (f32_one exactOps)
                    (f32_div exactOps (f32_one exactOps)
                       (f32_of_int exactOps (int (NumChildren twoChildren)))))
                 regrets)
              (profile w4),
          slicePool := pool_free regrets (slicePool w4)\<rparr>"
  by (rule handleTraversingPlayerNode_regrets [OF run_twoChildren])

text \<open>
  Claim C1 as stated fails. With \<open>k = 1\<close> and two children only action 1 is sampled, yet
  the cumulative regret of action 0 of the new policy goes from 0 to -2: the constant
  \<open>-cfValue\<close> is added to every entry of the buffer (line 96), so an action that was not
  sampled contributes \<open>(1/q) * (0 - cfValue)\<close>, not zero.
\<close>

theorem unsampled_regret_counterexample:
  "sampleActions 1 (NumChildren twoChildren) (rng freshWorld) = Inr ([1], \<lambda>i. 0) \<and>
   policiesByKey (profile freshWorld) ''root'' = None \<and>
   regretSum (policy_New exactOps (NumChildren twoChildren)) = [0, 0] \<and>
   (case handleTraversingPlayerNode exactOps 1 twoChildren 1 0 Map.empty freshWorld of
      Inl err \<Rightarrow> False
    | Inr (v, sa, w) \<Rightarrow>
        map_option regretSum (policiesByKey (profile w) ''root'') = Some [- 2, 2])"
  by (simp add: run_twoChildren afterTwoChildren_def)
     (simp add: twoChildren_def freshWorld_def exactOps_def NewPolicyTable_def policy_New_def
        NumChildren_def sampleActions_def arange_def rand_Shuffle_def rand_draw_def swap_def
        Let_def numeral_2_eq_2)

lemma runHelper_Terminal:
  "Type node = TerminalNode \<Longrightarrow>
   runHelper A k node lp sp tp sa w =
     Inr (f32_div A (f32_of_f64 A (Utility node lp)) sp, sa,
          w\<lparr>calls := calls w @ [CallType (Ident node), CallClose (Ident node)]\<rparr>)"
  by (simp add: runHelper.simps)

lemma runHelper_Chance:
  "Type node = ChanceNode \<Longrightarrow>
   runHelper A k node lp sp tp sa w =
     (case SampleChild node (rng w) of
        Inl err \<Rightarrow> Inl err
      | Inr (child, r') \<Rightarrow>
          (case runHelper A k child lp sp tp sa
                  (w\<lparr>calls := calls w @ [CallType (Ident node)], rng := r'\<rparr>) of
             Inl err \<Rightarrow> Inl err
           | Inr (ev, sa1, w1) \<Rightarrow>
               Inr (ev, sa1, w1\<lparr>calls := calls w1 @ [CallClose (Ident node)]\<rparr>)))"
  by (simp add: runHelper.simps handleChanceNode.simps split: sum.splits prod.splits)

lemma GetPolicy_key:
  "GetPolicy A node pt = Inr ((key, pol), pt1) \<Longrightarrow> key = InfoSetKey node (Player node)"
  by (auto simp: GetPolicy_def Let_def split: option.splits if_splits)

lemma handleSampledPlayerNode_Inr:
  assumes "handleSampledPlayerNode A k node sp tp sa w = Inr (v, sa', w')"
  shows "\<exists>key pol pt1 i sa1 r1.
     key = InfoSetKey node (Player node) \<and>
     GetPolicy A node (profile w) = Inr ((key, pol), pt1) \<and>
     (sa key = Some i \<and> sa1 = sa \<and> r1 = rng w \<or>
      sa key = None \<and> sampleOne (GetStrategy pol) (rng w) = Inr (i, r1) \<and> sa1 = sa(key \<mapsto> i)) \<and>
     i < NumChildren node \<and>
     runHelper A k (Children node ! i) (Player node) sp tp sa1
       (w\<lparr>rng := r1,
          profile := onPolicy key (AddStrategyWeight A (f32_div A (f32_one A) sp)) pt1\<rparr>) =
       Inr (v, sa', w')"
  using assms
  by (auto simp: handleSampledPlayerNode.simps Let_def NumChildren_def
           split: sum.splits prod.splits option.splits if_splits dest: GetPolicy_key)

lemma runHelper_Player_Inr:
  assumes "Type node = PlayerNode"
    and "runHelper A k node lp sp tp sa w = Inr (ev, sa', w')"
  shows "\<exists>v w1.
     handlePlayerNode A k node sp tp sa (w\<lparr>calls := calls w @ [CallType (Ident node)]\<rparr>) =
       Inr (v, sa', w1) \<and>
     ev = f32_mul A (getSign A lp (Player node)) v \<and>
     w' = w1\<lparr>calls := calls w1 @ [CallClose (Ident node)]\<rparr>"
  using assms by (auto simp: runHelper.simps Let_def split: sum.splits prod.splits)

text \<open>
  Claim C4. At a terminal node the evaluator returns the utility for the last acting
  player, converted to \<open>float32\<close>, divided by the sampling probability it was called with.
  At a chance node it returns what the sampled child returns for the same sampling
  probability; at a node of the other player, what one child returns for the same sampling
  probability (up to the sign); only at a node of the traversing player are the children
  evaluated with another one, \<open>q * sampleProb\<close> with \<open>q = 1 / numChildren\<close>.
\<close>

theorem sampleProb_scaled_only_at_traverser:
  fixes w :: "('f, ('f, 'dp) PolicyTable) world" and A :: "('f, 'u) f32ops"
  shows "(Type node = TerminalNode \<longrightarrow>
            runHelper A k node lp sp tp sa w =
              Inr (f32_div A (f32_of_f64 A (Utility node lp)) sp, sa,
                   w\<lparr>calls := calls w @ [CallType (Ident node), CallClose (Ident node)]\<rparr>))
       \<and> (Type node = ChanceNode \<longrightarrow>
            runHelper A k node lp sp tp sa w =
              (case SampleChild node (rng w) of
                 Inl err \<Rightarrow> Inl err
               | Inr (child, r') \<Rightarrow>
                   (case runHelper A k child lp sp tp sa
                           (w\<lparr>calls := calls w @ [CallType (Ident node)], rng := r'\<rparr>) of
                      Inl err \<Rightarrow> Inl err
                    | Inr (ev, sa1, w1) \<Rightarrow>
                        Inr (ev, sa1, w1\<lparr>calls := calls w1 @ [CallClose (Ident node)]\<rparr>))))
       \<and> (Type node = PlayerNode \<and> tp \<noteq> Player node \<longrightarrow>
            (\<forall>ev sa' w'. runHelper A k node lp sp tp sa w = Inr (ev, sa', w') \<longrightarrow>
               (\<exists>i v sa1 w1 w2.
                  i < NumChildren node \<and>
                  runHelper A k (Children node ! i) (Player node) sp tp sa1 w1 = Inr (v, sa', w2) \<and>
                  ev = f32_mul A (getSign A lp (Player node)) v \<and>
                  w' = w2\<lparr>calls := calls w2 @ [CallClose (Ident node)]\<rparr>)))
       \<and> (Type node = PlayerNode \<and> tp = Player node \<longrightarrow>
            (\<forall>ev sa' w'. runHelper A k node lp sp tp sa w = Inr (ev, sa', w') \<longrightarrow>
               (\<exists>selected utils strategy s1 (w2 :: ('f, ('f, 'dp) PolicyTable) world).
                  evalChildren A k node (Player node)
                    (f32_mul A (f32_div A (f32_one A) (f32_of_int A (int (NumChildren node)))) sp)
                    tp selected utils s1 (sa', w2) \<and>
                  ev = f32_mul A (getSign A lp (Player node))
                         (weighted A strategy selected utils (f32_zero A)) \<and>
                  calls w' = calls w2 @ [CallClose (Ident node)])))"
proof (intro conjI impI allI)
  assume "Type node = TerminalNode"
  then show "runHelper A k node lp sp tp sa w =
              Inr (f32_div A (f32_of_f64 A (Utility node lp)) sp, sa,
                   w\<lparr>calls := calls w @ [CallType (Ident node), CallClose (Ident node)]\<rparr>)"
    by (rule runHelper_Terminal)
next
  assume "Type node = ChanceNode"
  then show "runHelper A k node lp sp tp sa w =
              (case SampleChild node (rng w) of
                 Inl err \<Rightarrow> Inl err
               | Inr (child, r') \<Rightarrow>
                   (case runHelper A k child lp sp tp sa
                           (w\<lparr>calls := calls w @ [CallType (Ident node)], rng := r'\<rparr>) of
                      Inl err \<Rightarrow> Inl err
                    | Inr (ev, sa1, w1) \<Rightarrow>
                        Inr (ev, sa1, w1\<lparr>calls := calls w1 @ [CallClose (Ident node)]\<rparr>)))"
    by (rule runHelper_Chance)
next
  fix ev sa' w'
  assume node: "Type node = PlayerNode \<and> tp \<noteq> Player node"
    and ret: "runHelper A k node lp sp tp sa w = Inr (ev, sa', w')"
  from runHelper_Player_Inr [OF _ ret] node obtain v w1 where
    h: "handlePlayerNode A k node sp tp sa (w\<lparr>calls := calls w @ [CallType (Ident node)]\<rparr>) =
       Inr (v, sa', w1)"
    and ev: "ev = f32_mul A (getSign A lp (Player node)) v"
    and w': "w' = w1\<lparr>calls := calls w1 @ [CallClose (Ident node)]\<rparr>"
    by blast
  from h node have "handleSampledPlayerNode A k node sp tp sa
      (w\<lparr>calls := calls w @ [CallType (Ident node)]\<rparr>) = Inr (v, sa', w1)"
    by (simp add: handlePlayerNode.simps)
  from handleSampledPlayerNode_Inr [OF this] ev w'
  show "\<exists>i v sa1 w1 w2.
          i < NumChildren node \<and>
          runHelper A k (Children node ! i) (Player node) sp tp sa1 w1 = Inr (v, sa', w2) \<and>
          ev = f32_mul A (getSign A lp (Player node)) v \<and>
          w' = w2\<lparr>calls := calls w2 @ [CallClose (Ident node)]\<rparr>"
    by blast
next
  fix ev sa' w'
  assume node: "Type node = PlayerNode \<and> tp = Player node"
    and ret: "runHelper A k node lp sp tp sa w = Inr (ev, sa', w')"
  from runHelper_Player_Inr [OF _ ret] node obtain v w1 where
    h: "handlePlayerNode A k node sp tp sa (w\<lparr>calls := calls w @ [CallType (Ident node)]\<rparr>) =
       Inr (v, sa', w1)"
    and ev: "ev = f32_mul A (getSign A lp (Player node)) v"
    and w': "w' = w1\<lparr>calls := calls w1 @ [CallClose (Ident node)]\<rparr>"
    by blast
  from h node have "handleTraversingPlayerNode A k node sp tp sa
      (w\<lparr>calls := calls w @ [CallType (Ident node)]\<rparr>) = Inr (v, sa', w1)"
    by (simp add: handlePlayerNode.simps)
  from handleTraversingPlayerNode_Inr [OF this]
  obtain key pol pt1 selected r' buf pool' regrets1 w4 where
    loop: "sampledLoop A k node (GetStrategy pol) (Player node)
       (f32_mul A (f32_div A (f32_one A) (f32_of_int A (int (NumChildren node)))) sp) tp
       selected buf (f32_zero A) sa
       (w\<lparr>calls := calls w @ [CallType (Ident node)], profile := pt1, rng := r',
          slicePool := pool'\<rparr>) = Inr ((regrets1, v), sa', w4)"
    and w1: "w1 = w4\<lparr>profile :=
               onPolicy key
                 (AddRegret A
                    (f32_div A (f32_one A)
                       (f32_div A (f32_one A) (f32_of_int A (int (NumChildren node)))))
                    (AddConst A (f32_neg A v) regrets1))
                 (profile w4),
             slicePool := pool_free (AddConst A (f32_neg A v) regrets1) (slicePool w4)\<rparr>"
    by auto
  from sampledLoop_spec [OF loop] obtain utils where
    evc: "evalChildren A k node (Player node)
       (f32_mul A (f32_div A (f32_one A) (f32_of_int A (int (NumChildren node)))) sp) tp
       selected utils
       (sa, w\<lparr>calls := calls w @ [CallType (Ident node)], profile := pt1, rng := r',
              slicePool := pool'\<rparr>) (sa', w4)"
    and cf: "v = weighted A (GetStrategy pol) selected utils (f32_zero A)"
    by blast
  have c: "calls w' = calls w4 @ [CallClose (Ident node)]"
    unfolding w' w1 by simp
  show "\<exists>selected utils strategy s1 (w2 :: ('f, ('f, 'dp) PolicyTable) world).
          evalChildren A k node (Player node)
            (f32_mul A (f32_div A (f32_one A) (f32_of_int A (int (NumChildren node)))) sp)
            tp selected utils s1 (sa', w2) \<and>
          ev = f32_mul A (getSign A lp (Player node))
                 (weighted A strategy selected utils (f32_zero A)) \<and>
          calls w' = calls w2 @ [CallClose (Ident node)]"
  proof (intro exI conjI)
    show "evalChildren A k node (Player node)
       (f32_mul A (f32_div A (f32_one A) (f32_of_int A (int (NumChildren node)))) sp) tp
       selected utils
       (sa, w\<lparr>calls := calls w @ [CallType (Ident node)], profile := pt1, rng := r',
              slicePool := pool'\<rparr>) (sa', w4)"
      by (fact evc)
    show "ev = f32_mul A (getSign A lp (Player node))
                 (weighted A (GetStrategy pol) selected utils (f32_zero A))"
      unfolding ev cf ..
    show "calls w' = calls w4 @ [CallClose (Ident node)]"
      by (fact c)
  qed
qed

lemma SampleChild_Inr:
  "SampleChild node r = Inr (child, r') \<Longrightarrow>
     \<exists>i < length (Children node). child = Children node ! i"
  by (auto simp: SampleChild_def rand_Intn_def rand_draw_def NumChildren_def split: if_splits
        intro!: exI [of _ "r 0 mod length (Children node)"])

lemma evalChildren_cache:
  fixes s :: "sampledActions \<times> ('f, ('f, 'dp) PolicyTable) world"
  assumes "evalChildren A k node pl sp tp sel utils s s'"
    and "\<And>i sa (w :: ('f, ('f, 'dp) PolicyTable) world) u sa1 w1.
           i < length (Children node) \<Longrightarrow>
           runHelper A k (Children node ! i) pl sp tp sa w = Inr (u, sa1, w1) \<Longrightarrow> sa \<subseteq>\<^sub>m sa1"
  shows "fst s \<subseteq>\<^sub>m fst s'"
  using assms
proof (induction rule: evalChildren.induct)
  case (evalNone s)
  then show ?case by simp
next
  case (evalNext i sa w util sa1 w1 rest utils s')
  have "sa \<subseteq>\<^sub>m sa1"
    using evalNext.hyps(1,2) by (rule evalNext.prems)
  moreover have "sa1 \<subseteq>\<^sub>m fst s'"
    using evalNext.IH evalNext.prems by simp
  ultimately show ?case
    by (auto intro: map_le_trans)
qed

lemma runHelper_cache:
  fixes w :: "('f, ('f, 'dp) PolicyTable) world"
  shows "runHelper A k node lp sp tp sa w = Inr (v, sa', w') \<Longrightarrow> sa \<subseteq>\<^sub>m sa'"
proof (induction "size node" arbitrary: node lp sp sa w v sa' w' rule: less_induct)
  case less
  note ret = less.prems
  show ?case
  proof (cases "Type node")
    case TerminalNode
    with ret show ?thesis
      by (simp add: runHelper_Terminal)
  next
    case ChanceNode
    with ret obtain child r' w1 where
      sc: "SampleChild node (rng w) = Inr (child, r')"
      and sub: "runHelper A k child lp sp tp sa
                  (w\<lparr>calls := calls w @ [CallType (Ident node)], rng := r'\<rparr>) = Inr (v, sa', w1)"
      by (auto simp: runHelper_Chance split: sum.splits prod.splits)
    have "size child < size node"
      using sc by (rule SampleChild_size)
    then show ?thesis
      using sub by (rule less.hyps)
  next
    case PlayerNode
    from runHelper_Player_Inr [OF PlayerNode ret] obtain v0 w1 where
      h: "handlePlayerNode A k node sp tp sa (w\<lparr>calls := calls w @ [CallType (Ident node)]\<rparr>) =
            Inr (v0, sa', w1)"
      by blast
    have kids: "sa0 \<subseteq>\<^sub>m sa1"
      if "i < length (Children node)"
        "runHelper A k (Children node ! i) pl sp0 tp sa0 w0 = Inr (u, sa1, w2)"
      for i pl sp0 sa0 u sa1 w2 and w0 :: "('f, ('f, 'dp) PolicyTable) world"
      using size_child [OF that(1)] that(2) by (rule less.hyps)
    show ?thesis
    proof (cases "tp = Player node")
      case True
      with h have "handleTraversingPlayerNode A k node sp tp sa
          (w\<lparr>calls := calls w @ [CallType (Ident node)]\<rparr>) = Inr (v0, sa', w1)"
        by (simp add: handlePlayerNode.simps)
      from handleTraversingPlayerNode_Inr [OF this]
      obtain pol pt1 selected r' buf pool' regrets1 w4 where
        "sampledLoop A k node (GetStrategy pol) (Player node)
           (f32_mul A (f32_div A (f32_one A) (f32_of_int A (int (NumChildren node)))) sp) tp
           selected buf (f32_zero A) sa
           (w\<lparr>calls := calls w @ [CallType (Ident node)], profile := pt1, rng := r',
              slicePool := pool'\<rparr>) = Inr ((regrets1, v0), sa', w4)"
        by auto
      from sampledLoop_spec [OF this] obtain utils where
        "evalChildren A k node (Player node)
           (f32_mul A (f32_div A (f32_one A) (f32_of_int A (int (NumChildren node)))) sp) tp
           selected utils
           (sa, w\<lparr>calls := calls w @ [CallType (Ident node)], profile := pt1, rng := r',
                  slicePool := pool'\<rparr>) (sa', w4)"
        by blast
      from evalChildren_cache [OF this kids] show ?thesis
        by simp
    next
      case False
      with h have "handleSampledPlayerNode A k node sp tp sa
          (w\<lparr>calls := calls w @ [CallType (Ident node)]\<rparr>) = Inr (v0, sa', w1)"
        by (simp add: handlePlayerNode.simps)
      from handleSampledPlayerNode_Inr [OF this]
      obtain key i sa1 w2 where
        first: "sa1 = sa \<or> sa key = None \<and> sa1 = sa(key \<mapsto> i)"
        and i: "i < NumChildren node"
        and sub: "runHelper A k (Children node ! i) (Player node) sp tp sa1 w2 = Inr (v0, sa', w1)"
        by blast
      have "sa \<subseteq>\<^sub>m sa1"
        using first by (auto simp: map_le_def)
      moreover have "sa1 \<subseteq>\<^sub>m sa'"
        using i sub by (intro kids) (simp_all add: NumChildren_def)
      ultimately show ?thesis
        by (rule map_le_trans)
    qed
  qed
qed

lemmas engine_eval =
  runHelper.simps handleChanceNode.simps handlePlayerNode.simps handleTraversingPlayerNode.simps
  sampledLoop.simps handleSampledPlayerNode.simps
  SampleChild_def rand_Intn_def rand_draw_def sampleOne_def
  exactOps_def NewPolicyTable_def GetPolicy_def policy_New_def getSign_def
  NumChildren_def NumActions_def GetStrategy_def sampleActions_def arange_def
  rand_Shuffle_def swap_def pool_alloc_def pool_free_def AddConst_def
  AddRegret_def AddStrategyWeight_def onPolicy_def Let_def numeral_2_eq_2

lemma run_mixedTree:
  "(case runHelper exactOps 2 mixedTree 0 1 0 Map.empty freshWorld of
      Inl err \<Rightarrow> False
    | Inr (ev, sa, w) \<Rightarrow>
        ev = 2 \<and>
        calls w = [CallType 0, CallType 1, CallType 2, CallType 3, CallClose 3, CallType 4,
                   CallClose 4, CallClose 2, CallClose 1, CallClose 0])"
  by (simp add: engine_eval mixedTree_def freshWorld_def)

theorem sampleProb_scaled_only_at_traverser_witness:
  "Type leaf = TerminalNode \<and>
   runHelper exactOps 1 leaf 0 (1 / 2) 0 Map.empty freshWorld =
     Inr (12, Map.empty, freshWorld\<lparr>calls := [CallType 1, CallClose 1]\<rparr>) \<and>
   (case runHelper exactOps 2 mixedTree 0 1 0 Map.empty freshWorld of
      Inl err \<Rightarrow> False
    | Inr (ev, sa, w) \<Rightarrow>
        ev = 2 \<and>
        calls w = [CallType 0, CallType 1, CallType 2, CallType 3, CallClose 3, CallType 4,
                   CallClose 4, CallClose 2, CallClose 1, CallClose 0])"
proof -
  have t: "Type leaf = TerminalNode"
    by (simp add: leaf_def)
  from sampleProb_scaled_only_at_traverser [of leaf exactOps 1 0 "1 / 2" 0 Map.empty freshWorld] t
  have "runHelper exactOps 1 leaf 0 (1 / 2) 0 Map.empty freshWorld =
     Inr (f32_div exactOps (f32_of_f64 exactOps (Utility leaf 0)) (1 / 2), Map.empty,
          freshWorld\<lparr>calls := calls freshWorld @ [CallType (Ident leaf), CallClose (Ident leaf)]\<rparr>)"
    by blast
  then have "runHelper exactOps 1 leaf 0 (1 / 2) 0 Map.empty freshWorld =
     Inr (12, Map.empty, freshWorld\<lparr>calls := [CallType 1, CallClose 1]\<rparr>)"
    by (simp add: leaf_def exactOps_def freshWorld_def)
  with t run_mixedTree show ?thesis
    by blast
qed

text \<open>
  Claim C5. A node of the other player whose key is in the cache descends into the cached
  action: nothing is sampled and the cache stays as it is. On the first visit of a key the
  sampled action is put in the cache and is still there when the call returns. No call of
  the evaluator removes or changes an entry, so every later visit of the traversal finds
  it. \<open>Run\<close> starts from the empty cache and does not return it; and two runs in a row on
  the same tree and profile descend into different actions for the same key (the random
  source has moved on).
\<close>

theorem sampled_action_cached:
  fixes w :: "('f, ('f, 'dp) PolicyTable) world" and A :: "('f, 'u) f32ops"
  shows "(\<forall>c. sa (InfoSetKey node (Player node)) = Some c \<longrightarrow>
            handleSampledPlayerNode A k node sp tp sa w =
              (case GetPolicy A node (profile w) of
                 Inl err \<Rightarrow> Inl err
               | Inr ((key, pol), pt1) \<Rightarrow>
                   if c < NumChildren node
                   then runHelper A k (Children node ! c) (Player node) sp tp sa
                          (w\<lparr>profile :=
                               onPolicy key (AddStrategyWeight A (f32_div A (f32_one A) sp)) pt1\<rparr>)
                   else Inl IndexPanic))
       \<and> (\<forall>v sa' w'. sa (InfoSetKey node (Player node)) = None \<and>
            handleSampledPlayerNode A k node sp tp sa w = Inr (v, sa', w') \<longrightarrow>
            (\<exists>i pol pt1 r1 w1.
               GetPolicy A node (profile w) = Inr ((InfoSetKey node (Player node), pol), pt1) \<and>
               sampleOne (GetStrategy pol) (rng w) = Inr (i, r1) \<and>
               runHelper A k (Children node ! i) (Player node) sp tp
                 (sa(InfoSetKey node (Player node) \<mapsto> i)) w1 = Inr (v, sa', w') \<and>
               sa' (InfoSetKey node (Player node)) = Some i))
       \<and> (\<forall>v sa' w'. runHelper A k node lp sp tp sa w = Inr (v, sa', w') \<longrightarrow> sa \<subseteq>\<^sub>m sa')
       \<and> Run A k node w =
            (case runHelper A k node (Player node) (f32_one A) (Iter (profile w) smod 2)
                    Map.empty w of
               Inl err \<Rightarrow> Inl err
             | Inr (ev, sa', w1) \<Rightarrow> Inr (ev, w1))
       \<and> (case Run exactOps 1 twoChildren (freshWorld\<lparr>rng := (\<lambda>i. i)\<rparr>) of
             Inl err \<Rightarrow> False
           | Inr (ev1, w1) \<Rightarrow>
               calls w1 = [CallType 0, CallType 1, CallClose 1, CallClose 0] \<and>
               (case Run exactOps 1 twoChildren w1 of
                  Inl err \<Rightarrow> False
                | Inr (ev2, w2) \<Rightarrow>
                    calls w2 = calls w1 @ [CallType 0, CallType 2, CallClose 2, CallClose 0]))"
proof (intro conjI allI impI)
  fix c
  assume "sa (InfoSetKey node (Player node)) = Some c"
  then show "handleSampledPlayerNode A k node sp tp sa w =
              (case GetPolicy A node (profile w) of
                 Inl err \<Rightarrow> Inl err
               | Inr ((key, pol), pt1) \<Rightarrow>
                   if c < NumChildren node
                   then runHelper A k (Children node ! c) (Player node) sp tp sa
                          (w\<lparr>profile :=
                               onPolicy key (AddStrategyWeight A (f32_div A (f32_one A) sp)) pt1\<rparr>)
                   else Inl IndexPanic)"
    by (simp add: handleSampledPlayerNode.simps Let_def NumChildren_def
          split: sum.splits prod.splits)
next
  fix v sa' w'
  assume a: "sa (InfoSetKey node (Player node)) = None \<and>
            handleSampledPlayerNode A k node sp tp sa w = Inr (v, sa', w')"
  let ?key = "InfoSetKey node (Player node)"
  from handleSampledPlayerNode_Inr [of A k node sp tp sa w v sa' w'] a
  obtain pol pt1 i r1 where
    gp: "GetPolicy A node (profile w) = Inr ((?key, pol), pt1)"
    and so: "sampleOne (GetStrategy pol) (rng w) = Inr (i, r1)"
    and sub: "runHelper A k (Children node ! i) (Player node) sp tp (sa(?key \<mapsto> i))
       (w\<lparr>rng := r1,
          profile := onPolicy ?key (AddStrategyWeight A (f32_div A (f32_one A) sp)) pt1\<rparr>) =
       Inr (v, sa', w')"
    by auto
  from runHelper_cache [OF sub] have "sa' ?key = Some i"
    by (auto simp: map_le_def dom_def)
  with gp so sub
  show "\<exists>i pol pt1 r1 w1.
               GetPolicy A node (profile w) = Inr ((?key, pol), pt1) \<and>
               sampleOne (GetStrategy pol) (rng w) = Inr (i, r1) \<and>
               runHelper A k (Children node ! i) (Player node) sp tp
                 (sa(?key \<mapsto> i)) w1 = Inr (v, sa', w') \<and>
               sa' ?key = Some i"
    by blast
next
  fix v sa' w'
  assume "runHelper A k node lp sp tp sa w = Inr (v, sa', w')"
  then show "sa \<subseteq>\<^sub>m sa'"
    by (rule runHelper_cache)
next
  show "Run A k node w =
            (case runHelper A k node (Player node) (f32_one A) (Iter (profile w) smod 2)
                    Map.empty w of
               Inl err \<Rightarrow> Inl err
             | Inr (ev, sa', w1) \<Rightarrow> Inr (ev, w1))"
    by (simp add: Run_def Let_def)
next
  show "case Run exactOps 1 twoChildren (freshWorld\<lparr>rng := (\<lambda>i. i)\<rparr>) of
             Inl err \<Rightarrow> False
           | Inr (ev1, w1) \<Rightarrow>
               calls w1 = [CallType 0, CallType 1, CallClose 1, CallClose 0] \<and>
               (case Run exactOps 1 twoChildren w1 of
                  Inl err \<Rightarrow> False
                | Inr (ev2, w2) \<Rightarrow>
                    calls w2 = calls w1 @ [CallType 0, CallType 2, CallClose 2, CallClose 0])"
    by (simp add: Run_def Iter_def signed_modulo_int_def engine_eval twoChildren_def freshWorld_def)
qed

theorem sampled_action_cached_witness:
  "[''root'' \<mapsto> 1] (InfoSetKey twoChildren (Player twoChildren)) = Some (1::nat) \<and>
   (case handleSampledPlayerNode exactOps 1 twoChildren 1 1 [''root'' \<mapsto> 1] freshWorld of
      Inl err \<Rightarrow> False
    | Inr (v, sa', w') \<Rightarrow>
        v = 1 \<and> sa' = [''root'' \<mapsto> 1] \<and> rng w' = rng freshWorld \<and>
        calls w' = [CallType 2, CallClose 2])"
proof -
  have c: "[''root'' \<mapsto> 1] (InfoSetKey twoChildren (Player twoChildren)) = Some (1::nat)"
    by (simp add: twoChildren_def)
  note T = sampled_action_cached [of "[''root'' \<mapsto> 1]" twoChildren exactOps 1 1 1 freshWorld]
  from T [THEN conjunct1, rule_format, OF c]
  have "handleSampledPlayerNode exactOps 1 twoChildren 1 1 [''root'' \<mapsto> 1] freshWorld =
          (case GetPolicy exactOps twoChildren (profile freshWorld) of
             Inl err \<Rightarrow> Inl err
           | Inr ((key, pol), pt1) \<Rightarrow>
               if 1 < NumChildren twoChildren
               then runHelper exactOps 1 (Children twoChildren ! 1) (Player twoChildren) 1 1
                      [''root'' \<mapsto> 1]
                      (freshWorld\<lparr>profile :=
                         onPolicy key
                           (AddStrategyWeight exactOps (f32_div exactOps (f32_one exactOps) 1))
                           pt1\<rparr>)
               else Inl IndexPanic)" .
  then show ?thesis
    using c
    by (simp add: runHelper.simps exactOps_def NewPolicyTable_def GetPolicy_def policy_New_def
          NumChildren_def NumActions_def AddStrategyWeight_def onPolicy_def Let_def
          numeral_2_eq_2 twoChildren_def freshWorld_def)
qed

lemma smod_2_nonneg: "0 \<le> (i::int) \<Longrightarrow> i smod 2 = i mod 2"
  by (simp add: signed_modulo_int_def sgn_if)

text \<open>
  Claim C10. \<open>Run\<close> passes the profile's iteration counter modulo 2 to the evaluator as the
  traversing player; \<open>Update\<close> increments the counter by one; so the \<open>Run\<close> after an
  \<open>Update\<close> traverses for the other player. The counter is a count: not negative and
  below the largest \<open>int\<close>.
\<close>

theorem Run_traversing_player_alternates:
  fixes w :: "('f, ('f, 'dp) PolicyTable) world"
  assumes it: "0 \<le> Iter (profile w)" "Iter (profile w) + 1 < 2 ^ 63"
  shows "Run A k node w =
           (case runHelper A k node (Player node) (f32_one A) (Iter (profile w) mod 2) Map.empty w of
              Inl err \<Rightarrow> Inl err
            | Inr (ev, sa, w1) \<Rightarrow> Inr (ev, w1))
       \<and> Iter (Update D (profile w)) = Iter (profile w) + 1
       \<and> (\<forall>w'. profile w' = Update D (profile w) \<longrightarrow>
             Run A k node w' =
               (case runHelper A k node (Player node) (f32_one A) (1 - Iter (profile w) mod 2)
                       Map.empty w' of
                  Inl err \<Rightarrow> Inl err
                | Inr (ev, sa, w1) \<Rightarrow> Inr (ev, w1)))"
proof -
  have up: "Iter (Update D (profile w)) = Iter (profile w) + 1"
    using it by (simp add: Update_def Iter_def int64_id split: prod.splits)
  have alt: "(Iter (profile w) + 1) mod 2 = 1 - Iter (profile w) mod 2"
    by presburger
  have run: "Run A k node v =
           (case runHelper A k node (Player node) (f32_one A) (Iter (profile v) mod 2) Map.empty v of
              Inl err \<Rightarrow> Inl err
            | Inr (ev, sa, w1) \<Rightarrow> Inr (ev, w1))"
    if "0 \<le> Iter (profile v)" for v :: "('f, ('f, 'dp) PolicyTable) world"
    using that by (simp add: Run_def Let_def smod_2_nonneg)
  show ?thesis
    using run [of w] run up alt it by auto
qed

theorem Run_traversing_player_alternates_witness:
  "0 \<le> Iter (profile freshWorld) \<and> Iter (profile freshWorld) + 1 < 2 ^ 63 \<and>
   Iter (profile freshWorld) mod 2 = 1 \<and>
   Iter (Update vanilla (profile freshWorld)) = 2 \<and>
   Run exactOps 1 leaf (freshWorld\<lparr>profile := Update vanilla (profile freshWorld)\<rparr>) =
     (case runHelper exactOps 1 leaf (Player leaf) 1 0 Map.empty
             (freshWorld\<lparr>profile := Update vanilla (profile freshWorld)\<rparr>) of
        Inl err \<Rightarrow> Inl err
      | Inr (ev, sa, w1) \<Rightarrow> Inr (ev, w1))"
proof -
  have it: "0 \<le> Iter (profile freshWorld)" "Iter (profile freshWorld) + 1 < 2 ^ 63"
    by (simp_all add: freshWorld_def NewPolicyTable_def Iter_def)
  have one: "Iter (profile freshWorld) mod 2 = 1"
    by (simp add: freshWorld_def NewPolicyTable_def Iter_def)
  note T = Run_traversing_player_alternates [OF it, of exactOps 1 leaf vanilla]
  have "Run exactOps 1 leaf (freshWorld\<lparr>profile := Update vanilla (profile freshWorld)\<rparr>) =
     (case runHelper exactOps 1 leaf (Player leaf) (f32_one exactOps)
             (1 - Iter (profile freshWorld) mod 2) Map.empty
             (freshWorld\<lparr>profile := Update vanilla (profile freshWorld)\<rparr>) of
        Inl err \<Rightarrow> Inl err
      | Inr (ev, sa, w1) \<Rightarrow> Inr (ev, w1))"
    by (rule T [THEN conjunct2, THEN conjunct2, rule_format]) simp
  moreover have "f32_one exactOps = 1"
    by (simp add: exactOps_def)
  moreover have "Iter (Update vanilla (profile freshWorld)) = Iter (profile freshWorld) + 1"
    by (rule T [THEN conjunct2, THEN conjunct1])
  moreover have "Iter (profile freshWorld) = 1"
    by (simp add: freshWorld_def NewPolicyTable_def Iter_def)
  ultimately show ?thesis
    using it by simp
qed

section \<open>Node release in both engines\<close>

lemma scoped_single:
  assumes "i < length (Children node)" "scoped (Children node ! i) es"
  shows "scoped node (CallType (Ident node) # es @ [CallClose (Ident node)])"
proof -
  have "scopedChildren node [i] (es @ [])"
    using assms scopedNone by (rule scopedNext)
  then have "scopedChildren node [i] es"
    by simp
  moreover have "distinct [i]"
    by simp
  ultimately show ?thesis
    by (rule scopedNode)
qed

lemma evalChildren_scoped:
  fixes s :: "sampledActions \<times> ('f, ('f, 'dp) PolicyTable) world"
  assumes "evalChildren A k node pl sp tp sel utils s s'"
    and "\<And>i sa (w :: ('f, ('f, 'dp) PolicyTable) world) u sa1 w1.
           i < length (Children node) \<Longrightarrow>
           runHelper A k (Children node ! i) pl sp tp sa w = Inr (u, sa1, w1) \<Longrightarrow>
           \<exists>es. calls w1 = calls w @ es \<and> scoped (Children node ! i) es"
  shows "\<exists>es. calls (snd s') = calls (snd s) @ es \<and> scopedChildren node sel es"
  using assms
proof (induction rule: evalChildren.induct)
  case (evalNone s)
  then show ?case
    by (auto intro: scopedNone)
next
  case (evalNext i sa w util sa1 w1 rest utils s')
  from evalNext.prems [OF evalNext.hyps(1,2)] obtain es where
    es: "calls w1 = calls w @ es" "scoped (Children node ! i) es"
    by blast
  from evalNext.IH evalNext.prems obtain es' where
    es': "calls (snd s') = calls w1 @ es'" "scopedChildren node rest es'"
    by auto
  have "scopedChildren node (i # rest) (es @ es')"
    using evalNext.hyps(1) es(2) es'(2) by (rule scopedNext)
  with es(1) es'(1) show ?case
    by auto
qed

lemma runHelper_scoped:
  fixes w :: "('f, ('f, 'dp) PolicyTable) world"
  shows "runHelper A k node lp sp tp sa w = Inr (v, sa', w') \<Longrightarrow>
         \<exists>es. calls w' = calls w @ es \<and> scoped node es"
proof (induction "size node" arbitrary: node lp sp sa w v sa' w' rule: less_induct)
  case less
  note ret = less.prems
  let ?open = "CallType (Ident node)" and ?close = "CallClose (Ident node)"
  show ?case
  proof (cases "Type node")
    case TerminalNode
    have "scoped node (?open # [] @ [?close])"
      by (rule scopedNode [OF scopedNone]) simp
    with ret TerminalNode show ?thesis
      by (auto simp: runHelper_Terminal)
  next
    case ChanceNode
    with ret obtain child r' w1 where
      sc: "SampleChild node (rng w) = Inr (child, r')"
      and sub: "runHelper A k child lp sp tp sa
                  (w\<lparr>calls := calls w @ [?open], rng := r'\<rparr>) = Inr (v, sa', w1)"
      and w': "w' = w1\<lparr>calls := calls w1 @ [?close]\<rparr>"
      by (auto simp: runHelper_Chance split: sum.splits prod.splits)
    from SampleChild_Inr [OF sc] obtain i where
      i: "i < length (Children node)" "child = Children node ! i"
      by blast
    have "size child < size node"
      using sc by (rule SampleChild_size)
    from less.hyps [OF this sub] obtain es where
      es: "calls w1 = calls w @ [?open] @ es" "scoped child es"
      by auto
    have "scoped node (?open # es @ [?close])"
      using i(1) es(2) unfolding i(2) by (rule scoped_single)
    with es(1) w' show ?thesis
      by simp
  next
    case PlayerNode
    from runHelper_Player_Inr [OF PlayerNode ret] obtain v0 w1 where
      h: "handlePlayerNode A k node sp tp sa (w\<lparr>calls := calls w @ [?open]\<rparr>) =
            Inr (v0, sa', w1)"
      and w': "w' = w1\<lparr>calls := calls w1 @ [?close]\<rparr>"
      by blast
    have kids: "\<exists>es. calls w2 = calls w0 @ es \<and> scoped (Children node ! i) es"
      if "i < length (Children node)"
        "runHelper A k (Children node ! i) pl sp0 tp sa0 w0 = Inr (u, sa1, w2)"
      for i pl sp0 sa0 u sa1 w2 and w0 :: "('f, ('f, 'dp) PolicyTable) world"
      using size_child [OF that(1)] that(2) by (rule less.hyps)
    show ?thesis
    proof (cases "tp = Player node")
      case True
      with h have "handleTraversingPlayerNode A k node sp tp sa
          (w\<lparr>calls := calls w @ [?open]\<rparr>) = Inr (v0, sa', w1)"
        by (simp add: handlePlayerNode.simps)
      from handleTraversingPlayerNode_Inr [OF this]
      obtain key pol pt1 selected r' buf pool' regrets1 w4 where
        sel: "sampleActions k (NumChildren node) (rng (w\<lparr>calls := calls w @ [?open]\<rparr>)) =
                Inr (selected, r')"
        and loop: "sampledLoop A k node (GetStrategy pol) (Player node)
           (f32_mul A (f32_div A (f32_one A) (f32_of_int A (int (NumChildren node)))) sp) tp
           selected buf (f32_zero A) sa
           (w\<lparr>calls := calls w @ [?open], profile := pt1, rng := r',
              slicePool := pool'\<rparr>) = Inr ((regrets1, v0), sa', w4)"
        and w1: "calls w1 = calls w4"
        by auto
      from sampledLoop_spec [OF loop] obtain utils where
        ev: "evalChildren A k node (Player node)
           (f32_mul A (f32_div A (f32_one A) (f32_of_int A (int (NumChildren node)))) sp) tp
           selected utils
           (sa, w\<lparr>calls := calls w @ [?open], profile := pt1, rng := r',
                  slicePool := pool'\<rparr>) (sa', w4)"
        by blast
      have "\<exists>es. calls (snd (sa', w4)) =
                  calls (snd (sa, w\<lparr>calls := calls w @ [?open], profile := pt1, rng := r',
                                     slicePool := pool'\<rparr>)) @ es \<and>
                scopedChildren node selected es"
        using ev by (rule evalChildren_scoped) (erule (1) kids)
      then obtain es where
        es: "calls w4 = calls w @ [?open] @ es" "scopedChildren node selected es"
        by auto
      have "distinct selected"
        using sampleActions_Inr [OF sel] by simp
      with es(2) have "scoped node (?open # es @ [?close])"
        by (rule scopedNode)
      with es(1) w1 w' show ?thesis
        by simp
    next
      case False
      with h have "handleSampledPlayerNode A k node sp tp sa
          (w\<lparr>calls := calls w @ [?open]\<rparr>) = Inr (v0, sa', w1)"
        by (simp add: handlePlayerNode.simps)
      from handleSampledPlayerNode_Inr [OF this]
      obtain key pt1 i sa1 r1 where
        i: "i < NumChildren node"
        and sub: "runHelper A k (Children node ! i) (Player node) sp tp sa1
           (w\<lparr>calls := calls w @ [?open]\<rparr>
              \<lparr>rng := r1,
               profile := onPolicy key (AddStrategyWeight A (f32_div A (f32_one A) sp)) pt1\<rparr>) =
           Inr (v0, sa', w1)"
        by blast
      have i': "i < length (Children node)"
        using i by (simp add: NumChildren_def)
      from kids [OF i' sub] obtain es where
        es: "calls w1 = calls w @ [?open] @ es" "scoped (Children node ! i) es"
        by auto
      have "scoped node (?open # es @ [?close])"
        using i' es(2) by (rule scoped_single)
      with es(1) w' show ?thesis
        by simp
    qed
  qed
qed

lemma runHelper_cs_Terminal:
  "Type node = TerminalNode \<Longrightarrow>
   runHelper_cs P A node lp r0 r1 w =
     Inr (Utility node lp,
          w\<lparr>calls := calls w @ [CallType (Ident node), CallClose (Ident node)]\<rparr>)"
  by (simp add: runHelper_cs.simps)

lemma runHelper_cs_Chance_Inr:
  assumes "Type node = ChanceNode"
    and "runHelper_cs P A node lp r0 r1 w = Inr (ev, w')"
  shows "\<exists>child r' w1.
     SampleChild node (rng w) = Inr (child, r') \<and>
     runHelper_cs P A child lp r0 r1
       (w\<lparr>calls := calls w @ [CallType (Ident node)], rng := r'\<rparr>) = Inr (ev, w1) \<and>
     w' = w1\<lparr>calls := calls w1 @ [CallClose (Ident node)]\<rparr>"
  using assms
  by (auto simp: runHelper_cs.simps handleChanceNode_cs.simps split: sum.splits prod.splits)

lemma runHelper_cs_Player_Inr:
  assumes "Type node = PlayerNode"
    and "runHelper_cs P A node lp r0 r1 w = Inr (ev, w')"
  shows "\<exists>v w1.
     handlePlayerNode_cs P A node r0 r1 (w\<lparr>calls := calls w @ [CallType (Ident node)]\<rparr>) =
       Inr (v, w1) \<and>
     ev = f32_mul A (getSign A lp (Player node)) v \<and>
     w' = w1\<lparr>calls := calls w1 @ [CallClose (Ident node)]\<rparr>"
  using assms by (auto simp: runHelper_cs.simps Let_def split: sum.splits prod.splits)

lemma handlePlayerNode_cs_Inr:
  assumes "handlePlayerNode_cs P A node r0 r1 w = Inr (v, w')"
  shows "\<exists>strat sp1 buf pool' adv1 w3.
     sp_GetStrategy P node (profile w) = Inr (strat, sp1) \<and>
     pool_alloc A (NumChildren node) (slicePool w) = (buf, pool') \<and>
     enumLoop_cs P A node strat (Player node) r0 r1 0 buf (f32_zero A)
       (w\<lparr>profile := sp1, slicePool := pool'\<rparr>) = Inr ((adv1, v), w3) \<and>
     calls w' = calls w3"
  using assms
  by (auto simp: handlePlayerNode_cs.simps Let_def split: sum.splits prod.splits)

lemma enumLoop_cs_scoped:
  fixes w :: "('f, 'sp) world"
  assumes "enumLoop_cs P A node strat pl r0 r1 i adv eu w = Inr ((adv', eu'), w')"
    and "\<And>j lp q0 q1 (w0 :: ('f, 'sp) world) u w1.
           j < length (Children node) \<Longrightarrow>
           runHelper_cs P A (Children node ! j) lp q0 q1 w0 = Inr (u, w1) \<Longrightarrow>
           \<exists>es. calls w1 = calls w0 @ es \<and> scoped (Children node ! j) es"
  shows "\<exists>es. calls w' = calls w @ es \<and> scopedChildren node [i..<NumChildren node] es"
  using assms(1)
proof (induction "NumChildren node - i" arbitrary: i adv eu w)
  case 0
  then have "enumLoop_cs P A node strat pl r0 r1 i adv eu w = Inr ((adv, eu), w)"
    by (subst enumLoop_cs.simps) simp
  with 0 show ?case
    by (auto intro: scopedNone)
next
  case (Suc m)
  then have i: "i < NumChildren node"
    by simp
  let ?p = "ns_GetActionProbability P strat i (profile w)"
  from Suc.prems i obtain util w1 where
    call: "(if pl = 0
            then runHelper_cs P A (Children node ! i) pl (f32_mul A ?p r0) r1 w
            else runHelper_cs P A (Children node ! i) pl r0 (f32_mul A ?p r1) w) = Inr (util, w1)"
    and rest: "enumLoop_cs P A node strat pl r0 r1 (Suc i) (adv[i := util])
                 (f32_add A eu (f32_mul A ?p util)) w1 = Inr ((adv', eu'), w')"
    by (subst (asm) enumLoop_cs.simps) (auto simp: Let_def split: sum.splits if_splits)
  have i': "i < length (Children node)"
    using i by (simp add: NumChildren_def)
  from call obtain lp q0 q1 where
    "runHelper_cs P A (Children node ! i) lp q0 q1 w = Inr (util, w1)"
    by (auto split: if_splits)
  from assms(2) [OF i' this] obtain es where
    es: "calls w1 = calls w @ es" "scoped (Children node ! i) es"
    by blast
  have "m = NumChildren node - Suc i"
    using Suc.hyps(2) by simp
  from Suc.hyps(1) [OF this rest] obtain es' where
    es': "calls w' = calls w1 @ es'" "scopedChildren node [Suc i..<NumChildren node] es'"
    by blast
  have "scopedChildren node (i # [Suc i..<NumChildren node]) (es @ es')"
    using i' es(2) es'(2) by (rule scopedNext)
  then have "scopedChildren node [i..<NumChildren node] (es @ es')"
    using i by (simp add: upt_conv_Cons)
  with es(1) es'(1) show ?case
    by auto
qed

lemma runHelper_cs_scoped:
  fixes w :: "('f, 'sp) world"
  shows "runHelper_cs P A node lp r0 r1 w = Inr (v, w') \<Longrightarrow>
         \<exists>es. calls w' = calls w @ es \<and> scoped node es"
proof (induction "size node" arbitrary: node lp r0 r1 w v w' rule: less_induct)
  case less
  note ret = less.prems
  let ?open = "CallType (Ident node)" and ?close = "CallClose (Ident node)"
  show ?case
  proof (cases "Type node")
    case TerminalNode
    have "scoped node (?open # [] @ [?close])"
      by (rule scopedNode [OF scopedNone]) simp
    with ret TerminalNode show ?thesis
      by (auto simp: runHelper_cs_Terminal)
  next
    case ChanceNode
    from runHelper_cs_Chance_Inr [OF ChanceNode ret] obtain child r' w1 where
      sc: "SampleChild node (rng w) = Inr (child, r')"
      and sub: "runHelper_cs P A child lp r0 r1
                  (w\<lparr>calls := calls w @ [?open], rng := r'\<rparr>) = Inr (v, w1)"
      and w': "w' = w1\<lparr>calls := calls w1 @ [?close]\<rparr>"
      by blast
    from SampleChild_Inr [OF sc] obtain i where
      i: "i < length (Children node)" "child = Children node ! i"
      by blast
    have "size child < size node"
      using sc by (rule SampleChild_size)
    from less.hyps [OF this sub] obtain es where
      es: "calls w1 = calls w @ [?open] @ es" "scoped child es"
      by auto
    have "scoped node (?open # es @ [?close])"
      using i(1) es(2) unfolding i(2) by (rule scoped_single)
    with es(1) w' show ?thesis
      by simp
  next
    case PlayerNode
    from runHelper_cs_Player_Inr [OF PlayerNode ret] obtain v0 w1 where
      h: "handlePlayerNode_cs P A node r0 r1 (w\<lparr>calls := calls w @ [?open]\<rparr>) = Inr (v0, w1)"
      and w': "w' = w1\<lparr>calls := calls w1 @ [?close]\<rparr>"
      by blast
    have kids: "\<exists>es. calls w2 = calls w0 @ es \<and> scoped (Children node ! j) es"
      if "j < length (Children node)"
        "runHelper_cs P A (Children node ! j) pl q0 q1 w0 = Inr (u, w2)"
      for j pl q0 q1 u w2 and w0 :: "('f, 'sp) world"
      using size_child [OF that(1)] that(2) by (rule less.hyps)
    from handlePlayerNode_cs_Inr [OF h] obtain strat sp1 buf pool' adv1 w3 where
      loop: "enumLoop_cs P A node strat (Player node) r0 r1 0 buf (f32_zero A)
               (w\<lparr>calls := calls w @ [?open]\<rparr>\<lparr>profile := sp1, slicePool := pool'\<rparr>) =
               Inr ((adv1, v0), w3)"
      and w1: "calls w1 = calls w3"
      by blast
    have "\<exists>es. calls w3 =
                calls (w\<lparr>calls := calls w @ [?open]\<rparr>\<lparr>profile := sp1, slicePool := pool'\<rparr>) @ es \<and>
              scopedChildren node [0..<NumChildren node] es"
      using loop by (rule enumLoop_cs_scoped) (erule (1) kids)
    then obtain es where
      es: "calls w3 = calls w @ [?open] @ es" "scopedChildren node [0..<NumChildren node] es"
      by auto
    have "scoped node (?open # es @ [?close])"
      using es(2) by (rule scopedNode) simp
    with es(1) w1 w' show ?thesis
      by simp
  qed
qed

lemma scoped_balanced:
  "scoped node es \<Longrightarrow> count_list es (CallClose i) = count_list es (CallType i)"
  "scopedChildren node vis es \<Longrightarrow> count_list es (CallClose i) = count_list es (CallType i)"
  by (induction rule: scoped_scopedChildren.inducts) auto

lemma scoped_brackets:
  "scoped node es \<Longrightarrow> \<exists>mid. es = CallType (Ident node) # mid @ [CallClose (Ident node)]"
  by (auto elim: scoped.cases)

lemma idents_unfold: "idents node = Ident node # concat (map idents (Children node))"
  by (cases node) simp

lemma concat_disjoint:
  "distinct (concat xss) \<Longrightarrow> i < length xss \<Longrightarrow> j < length xss \<Longrightarrow> i \<noteq> j \<Longrightarrow>
     set (xss ! i) \<inter> set (xss ! j) = {}"
proof (induction xss arbitrary: i j)
  case Nil
  then show ?case by simp
next
  case (Cons xs xss)
  show ?case
  proof (cases i)
    case 0
    with Cons.prems obtain j' where "j = Suc j'" "j' < length xss"
      by (cases j) auto
    with 0 Cons.prems show ?thesis
      by (auto dest: nth_mem)
  next
    case (Suc i')
    show ?thesis
    proof (cases j)
      case 0
      with Suc Cons.prems show ?thesis
        by (auto dest: nth_mem)
    next
      case (Suc j')
      with \<open>i = Suc i'\<close> Cons.prems Cons.IH [of i' j'] show ?thesis
        by auto
    qed
  qed
qed

lemma child_idents:
  "i < length (Children node) \<Longrightarrow>
     set (idents (Children node ! i)) \<subseteq> set (concat (map idents (Children node)))"
  by (auto simp: in_set_conv_nth) (metis nth_mem)

lemma scopedChildren_range:
  "scoped node es \<Longrightarrow> True"
  "scopedChildren node vis es \<Longrightarrow> \<forall>i \<in> set vis. i < length (Children node)"
  by (induction rule: scoped_scopedChildren.inducts) auto

lemma eventsOf_mono: "set xs \<subseteq> set ys \<Longrightarrow> eventsOf xs \<subseteq> eventsOf ys"
  by (auto simp: eventsOf_def)

lemma scoped_events:
  "scoped node es \<Longrightarrow> set es \<subseteq> eventsOf (idents node)"
  "scopedChildren node vis es \<Longrightarrow>
     set es \<subseteq> (\<Union>i \<in> set vis. eventsOf (idents (Children node ! i)))"
proof (induction rule: scoped_scopedChildren.inducts)
  case (scopedNode node visited es)
  have "eventsOf (idents (Children node ! i)) \<subseteq> eventsOf (concat (map idents (Children node)))"
    if "i \<in> set visited" for i
    using scopedChildren_range(2) [OF scopedNode.hyps(1)] that
    by (intro eventsOf_mono child_idents) auto
  then have "set es \<subseteq> eventsOf (concat (map idents (Children node)))"
    using scopedNode.IH by blast
  then show ?case
    by (subst idents_unfold) (auto simp: eventsOf_def)
next
  case (scopedNone node)
  then show ?case by simp
next
  case (scopedNext i node es rest es')
  then show ?case by auto
qed

lemma scoped_distinct:
  "scoped node es \<Longrightarrow> distinct (idents node) \<Longrightarrow> distinct es"
  "scopedChildren node vis es \<Longrightarrow> distinct vis \<Longrightarrow>
     distinct (concat (map idents (Children node))) \<Longrightarrow> distinct es"
proof (induction rule: scoped_scopedChildren.inducts)
  case (scopedNode node visited es)
  from scopedNode.prems have d: "distinct (concat (map idents (Children node)))"
    and fresh: "Ident node \<notin> set (concat (map idents (Children node)))"
    by (subst (asm) idents_unfold, simp)+
  have des: "distinct es"
    using scopedNode.IH scopedNode.hyps(2) d by simp
  have "eventsOf (idents (Children node ! i)) \<subseteq> eventsOf (concat (map idents (Children node)))"
    if "i \<in> set visited" for i
    using scopedChildren_range(2) [OF scopedNode.hyps(1)] that
    by (intro eventsOf_mono child_idents) auto
  then have "set es \<subseteq> eventsOf (concat (map idents (Children node)))"
    using scoped_events(2) [OF scopedNode.hyps(1)] by blast
  then have "CallType (Ident node) \<notin> set es" "CallClose (Ident node) \<notin> set es"
    using fresh by (auto simp: eventsOf_def)
  with des show ?case
    by simp
next
  case (scopedNone node)
  then show ?case by simp
next
  case (scopedNext i node es rest es')
  let ?xss = "map idents (Children node)"
  from scopedNext.prems have i: "i \<notin> set rest" and dr: "distinct rest"
    and d: "distinct (concat ?xss)"
    by simp_all
  have "distinct (idents (Children node ! i))"
    using d scopedNext.hyps(1) by (auto simp: distinct_concat_iff)
  then have d1: "distinct es"
    by (rule scopedNext.IH(1))
  have d2: "distinct es'"
    using dr d by (rule scopedNext.IH(2))
  have "set es \<inter> set es' = {}"
  proof -
    have a: "set es \<subseteq> eventsOf (idents (Children node ! i))"
      using scopedNext.hyps(2) by (rule scoped_events(1))
    have b: "set es' \<subseteq> (\<Union>j \<in> set rest. eventsOf (idents (Children node ! j)))"
      using scopedNext.hyps(3) by (rule scoped_events(2))
    have "eventsOf (idents (Children node ! i)) \<inter> eventsOf (idents (Children node ! j)) = {}"
      if "j \<in> set rest" for j
    proof -
      have j: "j < length (Children node)" "i \<noteq> j"
        using scopedChildren_range(2) [OF scopedNext.hyps(3)] that i by auto
      have "set (?xss ! i) \<inter> set (?xss ! j) = {}"
        using d scopedNext.hyps(1) j by (intro concat_disjoint) simp_all
      then show ?thesis
        using scopedNext.hyps(1) j(1) by (auto simp: eventsOf_def)
    qed
    with a b show ?thesis
      by blast
  qed
  with d1 d2 show ?case
    by simp
qed

text \<open>
  Claim C9. In both engines, the calls on nodes that a returning evaluation of a node makes
  are scoped: \<open>Type()\<close> on the node, the scoped calls of each visited child in turn, and
  \<open>Close()\<close> on the node last. Hence every child is closed before its parent, every node is
  closed as often as it is visited, and in a tree of distinct nodes every visited node is
  closed exactly once.
\<close>

theorem nodes_closed_in_scope:
  fixes w :: "('f, ('f, 'dp) PolicyTable) world" and x :: "('g, 'sp) world"
  shows "(\<forall>v sa' w'. runHelper A k node lp sp tp sa w = Inr (v, sa', w') \<longrightarrow>
            (\<exists>es. calls w' = calls w @ es \<and> scoped node es))
       \<and> (\<forall>v x'. runHelper_cs P B node' lp' reachP0 reachP1 x = Inr (v, x') \<longrightarrow>
            (\<exists>es. calls x' = calls x @ es \<and> scoped node' es))
       \<and> (\<forall>es. scoped node es \<longrightarrow>
            (\<exists>mid. es = CallType (Ident node) # mid @ [CallClose (Ident node)]) \<and>
            (\<forall>i. count_list es (CallClose i) = count_list es (CallType i)) \<and>
            (distinct (idents node) \<longrightarrow> distinct es))"
  using runHelper_scoped [of A k node lp sp tp sa w]
    runHelper_cs_scoped [of P B node' lp' reachP0 reachP1 x]
    scoped_brackets [of node] scoped_balanced(1) [of node] scoped_distinct(1) [of node]
  by blast

lemma run_cs_twoChildren:
  "(case runHelper_cs trivialProfile exactOps twoChildren 0 1 1 unitWorld of
      Inl err \<Rightarrow> False
    | Inr (ev, x') \<Rightarrow>
        calls x' = [CallType 0, CallType 1, CallClose 1, CallType 2, CallClose 2, CallClose 0])"
  by (simp add: runHelper_cs.simps handlePlayerNode_cs.simps enumLoop_cs.simps
        trivialProfile_def unitWorld_def twoChildren_def exactOps_def getSign_def NumChildren_def
        pool_alloc_def pool_free_def AddConst_def reachProb_def counterFactualProb_def Let_def
        numeral_2_eq_2)

theorem nodes_closed_in_scope_witness:
  "(case runHelper exactOps 2 mixedTree 0 1 0 Map.empty freshWorld of
      Inl err \<Rightarrow> False
    | Inr (ev, sa, w') \<Rightarrow>
        calls w' = [CallType 0, CallType 1, CallType 2, CallType 3, CallClose 3, CallType 4,
                    CallClose 4, CallClose 2, CallClose 1, CallClose 0] \<and>
        scoped mixedTree (calls w')) \<and>
   (case runHelper_cs trivialProfile exactOps twoChildren 0 1 1 unitWorld of
      Inl err \<Rightarrow> False
    | Inr (ev, x') \<Rightarrow>
        calls x' = [CallType 0, CallType 1, CallClose 1, CallType 2, CallClose 2, CallClose 0] \<and>
        scoped twoChildren (calls x'))"
proof -
  obtain ev sa w' where r: "runHelper exactOps 2 mixedTree 0 1 0 Map.empty freshWorld = Inr (ev, sa, w')"
    and c: "calls w' = [CallType 0, CallType 1, CallType 2, CallType 3, CallClose 3, CallType 4,
                        CallClose 4, CallClose 2, CallClose 1, CallClose 0]"
    using run_mixedTree by (auto split: sum.splits)
  obtain ev2 x' where r2: "runHelper_cs trivialProfile exactOps twoChildren 0 1 1 unitWorld = Inr (ev2, x')"
    and c2: "calls x' = [CallType 0, CallType 1, CallClose 1, CallType 2, CallClose 2, CallClose 0]"
    using run_cs_twoChildren by (auto split: sum.splits)
  note T = nodes_closed_in_scope [of exactOps 2 mixedTree 0 1 0 Map.empty freshWorld
      trivialProfile exactOps twoChildren 0 1 1 unitWorld]
  from T r obtain es where "calls w' = calls freshWorld @ es" "scoped mixedTree es"
    by blast
  then have s1: "scoped mixedTree (calls w')"
    by (simp add: freshWorld_def)
  from T r2 obtain es2 where "calls x' = calls unitWorld @ es2" "scoped twoChildren es2"
    by blast
  then have s2: "scoped twoChildren (calls x')"
    by (simp add: unitWorld_def)
  show ?thesis
    using r c s1 r2 c2 s2 by simp
qed

end
